theory Spec2Isabelle
  imports Main "HOL-Library.Word" "HOL-Library.Sublist" "HOL-Library.List_Lexorder"
    "HOL-Library.Product_Lexorder" "HOL-Library.Multiset"
begin

section \<open>JavaScript strings\<close>

text \<open>
  A JavaScript string is a sequence of UTF-16 code units. String literals of the
  source are written with \<open>js\<close>; the three pictographs of the tree output are given
  by their code units.
\<close>

type_synonym jschar = "16 word"
type_synonym jsstring = "jschar list"

definition js :: "string \<Rightarrow> jsstring" where
  "js s = map of_char s"

definition NL :: jschar where "NL = 10"
definition SLASH :: jschar where "SLASH = 47"
definition DOT :: jschar where "DOT = 46"
definition EQUALS :: jschar where "EQUALS = 61"

text \<open>\<open>'='.repeat(50)\<close>\<close>

definition eq50 :: jsstring where
  "eq50 = replicate 50 EQUALS"

text \<open>
  White space and line terminators, the code units that \<open>String.prototype.trim\<close>
  removes from both ends.
\<close>

definition isWhiteSpace :: "jschar \<Rightarrow> bool" where
  "isWhiteSpace c \<longleftrightarrow>
     c = 0x09 \<or> c = 0x0A \<or> c = 0x0B \<or> c = 0x0C \<or> c = 0x0D \<or> c = 0x20 \<or> c = 0xA0 \<or>
     c = 0x1680 \<or> (0x2000 \<le> c \<and> c \<le> 0x200A) \<or> c = 0x2028 \<or> c = 0x2029 \<or>
     c = 0x202F \<or> c = 0x205F \<or> c = 0x3000 \<or> c = 0xFEFF"

definition trim :: "jsstring \<Rightarrow> jsstring" where
  "trim s = rev (dropWhile isWhiteSpace (rev (dropWhile isWhiteSpace s)))"

text \<open>
  \<open>String.prototype.toLowerCase\<close> on the letters \<open>A\<close> to \<open>Z\<close>. The full mapping
  also changes code units outside ASCII, but sends none of them to an ASCII
  string of the extension list below, so the membership test of
  \<open>isBinaryFile\<close> is the same.
\<close>

definition toLowerCase :: "jsstring \<Rightarrow> jsstring" where
  "toLowerCase s = map (\<lambda>c. if 0x41 \<le> c \<and> c \<le> 0x5A then c + 0x20 else c) s"

text \<open>\<open>s.split(sep)\<close> for a separator of one code unit; the result is never empty.\<close>

fun split :: "jschar \<Rightarrow> jsstring \<Rightarrow> jsstring list" where
  "split sep [] = [[]]"
| "split sep (c # cs) =
     (if c = sep then [] # split sep cs
      else (case split sep cs of
              [] \<Rightarrow> [[c]]
            | seg # segs \<Rightarrow> (c # seg) # segs))"

text \<open>\<open>path.split('/').pop()\<close>\<close>

definition lastSegment :: "jsstring \<Rightarrow> jsstring" where
  "lastSegment path = last (split SLASH path)"

text \<open>
  \<open>s.indexOf(needle)\<close> for a non-empty needle: the offset of the first occurrence,
  \<open>None\<close> for the source's \<open>-1\<close>. A call \<open>s.indexOf(needle, startPos)\<close> is
  \<open>indexOf needle (drop startPos s)\<close>, with offsets counted from \<open>startPos\<close>.
\<close>

fun indexOf :: "jsstring \<Rightarrow> jsstring \<Rightarrow> nat option" where
  "indexOf needle [] = None"
| "indexOf needle (c # cs) =
     (if prefix needle (c # cs) then Some 0 else map_option Suc (indexOf needle cs))"

section \<open>The repository handle\<close>

text \<open>
  \<open>url.match(/github\.com\/([^\/]+)\/([^\/]+)/)\<close>. \<open>urlMatch_at\<close> matches the
  pattern at the start of its argument: each group takes the longest run of
  code units other than \<open>/\<close>, which must not be empty, and the first group must
  be followed by \<open>/\<close> (a shorter run would be followed by a code unit of the run,
  so backtracking finds nothing else). \<open>urlMatch\<close> tries every offset from the
  left, as an unanchored pattern does.
\<close>

definition urlMatch_at :: "jsstring \<Rightarrow> (jsstring \<times> jsstring) option" where
  "urlMatch_at s =
     (if prefix (js ''github.com/'') s then
        (let r = drop 11 s;
             g1 = takeWhile (\<lambda>c. c \<noteq> SLASH) r;
             r' = dropWhile (\<lambda>c. c \<noteq> SLASH) r
         in if g1 = [] \<or> r' = [] then None
            else (let g2 = takeWhile (\<lambda>c. c \<noteq> SLASH) (tl r')
                  in if g2 = [] then None else Some (g1, g2)))
      else None)"

fun urlMatch :: "jsstring \<Rightarrow> (jsstring \<times> jsstring) option" where
  "urlMatch [] = None"
| "urlMatch (c # cs) =
     (case urlMatch_at (c # cs) of Some m \<Rightarrow> Some m | None \<Rightarrow> urlMatch cs)"

datatype error = Error jsstring

record summary =
  raw :: jsstring

record GitIngester =
  url :: jsstring
  branch :: "jsstring option"
  owner :: jsstring
  repo :: jsstring
  summary :: "summary option"
  tree :: "jsstring option"
  content :: "jsstring option"

text \<open>
  A value that is \<open>null\<close> or a string is an option; \<open>truthy\<close> is the test of
  \<open>if (v)\<close>, \<open>v ? a : b\<close> and \<open>v || d\<close>: \<open>null\<close> and the empty string are falsy.
\<close>

definition truthy :: "jsstring option \<Rightarrow> bool" where
  "truthy v \<longleftrightarrow> (case v of None \<Rightarrow> False | Some s \<Rightarrow> s \<noteq> [])"

definition "constructor" :: "jsstring \<Rightarrow> jsstring option \<Rightarrow> error + GitIngester" where
  "constructor u b =
     (case urlMatch u of
        None \<Rightarrow> Inl (Error (js ''Invalid GitHub URL format''))
      | Some (g1, g2) \<Rightarrow>
          Inr \<lparr> url = (if truthy b then u @ js ''/tree/'' @ the b else u),
                branch = b, owner = g1, repo = g2,
                summary = None, tree = None, content = None \<rparr>)"

definition getSummary :: "GitIngester \<Rightarrow> jsstring" where
  "getSummary g =
     (case summary g of Some s \<Rightarrow> raw s | None \<Rightarrow> js ''Summary not available'')"

definition getTree :: "GitIngester \<Rightarrow> jsstring" where
  "getTree g = (if truthy (tree g) then the (tree g) else js ''Tree structure not available'')"

section \<open>The result object of the File Extractor\<close>

text \<open>
  \<open>const result = {}\<close> is an ordinary object used as a dictionary. Three points of
  its semantics are visible in the output and are modelled:
  \<^item> own properties are kept in creation order, and assigning to an existing key
    keeps its place;
  \<^item> \<open>Object.entries\<close> lists the keys that are array indices (canonical decimal
    numerals below \<open>2^32 - 1\<close>) first, in ascending numeric order, then the other
    keys in creation order;
  \<^item> the key \<open>__proto__\<close> is an accessor inherited from \<open>Object.prototype\<close>:
    assigning \<open>null\<close> to it removes the prototype and creates no property,
    assigning a string to it does nothing; once the prototype is removed, the
    key is created like any other.
  A property value is \<open>null\<close> (\<open>None\<close>) or a string.
\<close>

record jsobject =
  protoNull :: bool
  props :: "(jsstring \<times> jsstring option) list"

definition emptyObject :: jsobject where
  "emptyObject = \<lparr> protoNull = False, props = [] \<rparr>"

fun upsert :: "jsstring \<Rightarrow> jsstring option \<Rightarrow> (jsstring \<times> jsstring option) list
    \<Rightarrow> (jsstring \<times> jsstring option) list" where
  "upsert k v [] = [(k, v)]"
| "upsert k v ((k', v') # ps) = (if k' = k then (k, v) # ps else (k', v') # upsert k v ps)"

definition objSet :: "jsobject \<Rightarrow> jsstring \<Rightarrow> jsstring option \<Rightarrow> jsobject" where
  "objSet obj k v =
     (if k = js ''__proto__'' \<and> k \<notin> fst ` set (props obj) \<and> \<not> protoNull obj
      then (if v = None then obj\<lparr> protoNull := True \<rparr> else obj)
      else obj\<lparr> props := upsert k v (props obj) \<rparr>)"

definition isDigit :: "jschar \<Rightarrow> bool" where
  "isDigit c \<longleftrightarrow> 0x30 \<le> c \<and> c \<le> 0x39"

definition indexValue :: "jsstring \<Rightarrow> nat" where
  "indexValue s = foldl (\<lambda>n c. 10 * n + unat (c - 0x30)) 0 s"

definition isArrayIndex :: "jsstring \<Rightarrow> bool" where
  "isArrayIndex s \<longleftrightarrow>
     s \<noteq> [] \<and> list_all isDigit s \<and> (s = [0x30] \<or> hd s \<noteq> 0x30) \<and> indexValue s < 4294967295"

definition ownEntries :: "(jsstring \<times> jsstring option) list \<Rightarrow> (jsstring \<times> jsstring option) list" where
  "ownEntries ps =
     sort_key (\<lambda>e. indexValue (fst e)) (filter (\<lambda>e. isArrayIndex (fst e)) ps) @
     filter (\<lambda>e. \<not> isArrayIndex (fst e)) ps"

definition objEntries :: "jsobject \<Rightarrow> (jsstring \<times> jsstring option) list" where
  "objEntries obj = ownEntries (props obj)"

section \<open>The File Extractor\<close>

text \<open>
  The pattern \<open>/={50}\nFile: ([^\n]+)\n={50}/g\<close> matched at the start of a string:
  the group is the non-empty run of code units up to the next line feed, which
  must be followed by fifty \<open>=\<close>. The result is the group and the length of the
  whole match.
\<close>

definition header_at :: "jsstring \<Rightarrow> (jsstring \<times> nat) option" where
  "header_at s =
     (if prefix (eq50 @ NL # js ''File: '') s then
        (let r = drop 57 s;
             g1 = takeWhile (\<lambda>c. c \<noteq> NL) r;
             r' = dropWhile (\<lambda>c. c \<noteq> NL) r
         in if g1 \<noteq> [] \<and> prefix (NL # eq50) r' then Some (g1, 57 + length g1 + 51)
            else None)
      else None)"

text \<open>
  \<open>pattern.exec\<close> on the part of \<open>contentStr\<close> from \<open>lastIndex\<close> on: the leftmost
  match, as its offset, its group and its length.
\<close>

fun exec :: "jsstring \<Rightarrow> (nat \<times> jsstring \<times> nat) option" where
  "exec [] = None"
| "exec (c # cs) =
     (case header_at (c # cs) of
        Some (g1, len) \<Rightarrow> Some (0, g1, len)
      | None \<Rightarrow> map_option (\<lambda>(i, g1, len). (Suc i, g1, len)) (exec cs))"

text \<open>The test of the inner loop: does the requested path match a section's name?\<close>

definition pathMatches :: "jsstring \<Rightarrow> jsstring \<Rightarrow> bool" where
  "pathMatches path filename \<longleftrightarrow>
     path = filename \<or> lastSegment path = filename \<or> suffix (SLASH # filename) path"

fun forPaths :: "jsstring \<Rightarrow> jsstring \<Rightarrow> jsstring list \<Rightarrow> jsobject \<Rightarrow> jsobject" where
  "forPaths filename fileContent [] result = result"
| "forPaths filename fileContent (path # paths) result =
     forPaths filename fileContent paths
       (if pathMatches path filename then objSet result path (Some fileContent) else result)"

lemma exec_shorter:
  "exec s = Some (i, g1, len) \<Longrightarrow> length (drop (i + len) s) < length s"
proof (induction s arbitrary: i)
  case Nil
  then show ?case by simp
next
  case (Cons c cs)
  show ?case
  proof (cases "header_at (c # cs)")
    case None
    with Cons.prems obtain j where j: "exec cs = Some (j, g1, len)" and i: "i = Suc j"
      by auto
    from Cons.IH [OF j] i show ?thesis by simp
  next
    case (Some m)
    with Cons.prems have "0 < len"
      by (auto simp: header_at_def Let_def split: if_splits)
    then show ?thesis by simp
  qed
qed

text \<open>\<open>'='.repeat(50) + '\nFile:'\<close>, the text searched for to find the next header.\<close>

definition nextHeader :: jsstring where
  "nextHeader = eq50 @ [NL] @ js ''File:''"

text \<open>
  The \<open>while\<close> loop. Its state is the part of \<open>contentStr\<close> that starts at
  \<open>lastIndex\<close>, and the result object. After a match, \<open>startPos\<close> is the end of
  the match; the next header is searched from there with \<open>indexOf\<close>, and the
  next iteration resumes the pattern at \<open>startPos\<close>.
\<close>

function whileLoop :: "jsstring \<Rightarrow> jsstring list \<Rightarrow> jsobject \<Rightarrow> jsobject" where
  "whileLoop s filePaths result =
     (case exec s of
        None \<Rightarrow> result
      | Some (index, g1, len) \<Rightarrow>
          (let filename = trim g1;
               rest = drop (index + len) s;
               endPos = (case indexOf nextHeader rest of
                           Some n \<Rightarrow> n | None \<Rightarrow> length rest);
               fileContent = trim (take endPos rest)
           in whileLoop rest filePaths (forPaths filename fileContent filePaths result)))"
  by pat_completeness auto
termination
  by (relation "measure (\<lambda>(s, filePaths, result). length s)") (auto dest: exec_shorter)

fun concatLoop :: "(jsstring \<times> jsstring option) list \<Rightarrow> jsstring \<Rightarrow> jsstring" where
  "concatLoop [] concatenated = concatenated"
| "concatLoop ((path, c) # es) concatenated =
     concatLoop es
       (case c of
          None \<Rightarrow> concatenated
        | Some fileContent \<Rightarrow>
            (if concatenated \<noteq> [] then concatenated @ [NL, NL] else concatenated) @
            eq50 @ [NL] @ js ''File: '' @ path @ [NL] @ eq50 @ [NL] @ fileContent)"

definition getFilesContent :: "GitIngester \<Rightarrow> jsstring list \<Rightarrow> jsstring" where
  "getFilesContent g filePaths =
     (if \<not> truthy (content g) then js ''Content not available''
      else
        (let contentStr = the (content g);
             result = foldl (\<lambda>r path. objSet r path None) emptyObject filePaths;
             result' = whileLoop contentStr filePaths result;
             concatenated = concatLoop (objEntries result') []
         in if concatenated \<noteq> [] then concatenated
            else js ''None of the requested files were found''))"

definition getContent :: "GitIngester \<Rightarrow> jsstring list option \<Rightarrow> jsstring" where
  "getContent g filePaths =
     (case filePaths of
        None \<Rightarrow> (if truthy (content g) then the (content g) else js ''Content not available'')
      | Some ps \<Rightarrow> getFilesContent g ps)"

section \<open>Directory listings and the remote repository\<close>

text \<open>
  An entry of a directory listing, with the fields the collector reads. \<open>type\<close>
  is the string of the listing (\<open>file\<close>, \<open>dir\<close>, or another kind such as
  \<open>symlink\<close> or \<open>submodule\<close>).
\<close>

record entry =
  name :: jsstring
  type :: jsstring
  size' :: nat

text \<open>
  \<open>octokit.rest.repos.getContent\<close> for a path answers with a listing (an
  array), with a file object whose \<open>content\<close> is base64 text, or throws an
  error that carries a message. The remote repository is a function from paths
  to answers.
\<close>

datatype response = Listing "entry list" | FileObject jsstring | Failure jsstring

type_synonym remote = "jsstring \<Rightarrow> response"

text \<open>\<open>path ? `${path}/${item.name}` : item.name\<close>\<close>

definition itemPath :: "jsstring \<Rightarrow> entry \<Rightarrow> jsstring" where
  "itemPath path item = (if path \<noteq> [] then path @ SLASH # name item else name item)"

section \<open>The Tree Builder\<close>

text \<open>
  \<open>Array.prototype.sort\<close> with a comparison function is a stable sort; for a
  consistent comparison function its result is the one computed by stable
  insertion.
\<close>

fun insertSorted :: "('a \<Rightarrow> 'a \<Rightarrow> int) \<Rightarrow> 'a \<Rightarrow> 'a list \<Rightarrow> 'a list" where
  "insertSorted cmp x [] = [x]"
| "insertSorted cmp x (y # ys) =
     (if cmp x y \<le> 0 then x # y # ys else y # insertSorted cmp x ys)"

definition arraySort :: "('a \<Rightarrow> 'a \<Rightarrow> int) \<Rightarrow> 'a list \<Rightarrow> 'a list" where
  "arraySort cmp xs = foldr (insertSorted cmp) xs []"

text \<open>
  The comparison function of \<open>_generateTree\<close>. \<open>String.prototype.localeCompare\<close>
  belongs to the host and is a parameter.
\<close>

definition sortCompare :: "(jsstring \<Rightarrow> jsstring \<Rightarrow> int) \<Rightarrow> entry \<Rightarrow> entry \<Rightarrow> int" where
  "sortCompare localeCompare a b =
     (if type a = js ''dir'' \<and> type b \<noteq> js ''dir'' then - 1
      else if type a \<noteq> js ''dir'' \<and> type b = js ''dir'' then 1
      else localeCompare (name a) (name b))"

definition sortedContents :: "(jsstring \<Rightarrow> jsstring \<Rightarrow> int) \<Rightarrow> entry list \<Rightarrow> entry list" where
  "sortedContents localeCompare contents = arraySort (sortCompare localeCompare) contents"

text \<open>\<open>path ? '  '.repeat(path.split('/').filter(Boolean).length) : ''\<close>\<close>

definition indent :: "jsstring \<Rightarrow> jsstring" where
  "indent path =
     (if path \<noteq> [] then
        concat (replicate (length (filter (\<lambda>seg. seg \<noteq> []) (split SLASH path))) (js ''  ''))
      else [])"

text \<open>The pictographs of the tree lines, as UTF-16 code units.\<close>

definition folderIcon :: jsstring where "folderIcon = [0xD83D, 0xDCC1]"
definition pageIcon :: jsstring where "pageIcon = [0xD83D, 0xDCC4]"
definition warningIcon :: jsstring where "warningIcon = [0x26A0, 0xFE0F]"

text \<open>
  The loop of \<open>_generateTree\<close> over the sorted entries. The recursion follows
  the remote repository, so it carries fuel that bounds the nesting depth of
  directories; \<open>None\<close> means that the fuel ran out. A failed fetch, and an
  answer that is not a listing (spreading it throws), are caught by the
  \<open>try\<close> around the subdirectory and leave the warning line.
\<close>

fun treeLoop :: "nat \<Rightarrow> (jsstring \<Rightarrow> jsstring \<Rightarrow> int) \<Rightarrow> remote \<Rightarrow> entry list \<Rightarrow> jsstring
    \<Rightarrow> jsstring option" where
  "treeLoop fuel localeCompare remote [] path = Some []"
| "treeLoop fuel localeCompare remote (item # items) path =
     (if type item = js ''dir'' then
        (case remote (itemPath path item) of
           Listing subContents \<Rightarrow>
             (case fuel of
                0 \<Rightarrow> None
              | Suc fuel' \<Rightarrow>
                  (case treeLoop fuel' localeCompare remote
                          (sortedContents localeCompare subContents) (itemPath path item) of
                     None \<Rightarrow> None
                   | Some sub \<Rightarrow>
                       map_option
                         (\<lambda>rest. indent path @ folderIcon @ js '' '' @ name item @ js ''/'' @ [NL]
                            @ sub @ rest)
                         (treeLoop fuel localeCompare remote items path)))
         | _ \<Rightarrow>
             map_option
               (\<lambda>rest. indent path @ folderIcon @ js '' '' @ name item @ js ''/'' @ [NL]
                  @ indent path @ js ''  '' @ warningIcon @ js '' Error loading directory contents''
                  @ [NL] @ rest)
               (treeLoop fuel localeCompare remote items path))
      else
        map_option (\<lambda>rest. indent path @ pageIcon @ js '' '' @ name item @ [NL] @ rest)
          (treeLoop fuel localeCompare remote items path))"

definition generateTree :: "nat \<Rightarrow> (jsstring \<Rightarrow> jsstring \<Rightarrow> int) \<Rightarrow> remote \<Rightarrow> entry list
    \<Rightarrow> jsstring \<Rightarrow> jsstring option" where
  "generateTree fuel localeCompare remote contents path =
     treeLoop fuel localeCompare remote (sortedContents localeCompare contents) path"

section \<open>The Content Serializer\<close>

text \<open>\<open>filename.lastIndexOf('.')\<close>, \<open>None\<close> for \<open>-1\<close>.\<close>

definition lastIndexOf :: "jschar \<Rightarrow> jsstring \<Rightarrow> nat option" where
  "lastIndexOf c s =
     (if c \<in> set s then Some (length s - 1 - length (takeWhile (\<lambda>d. d \<noteq> c) (rev s)))
      else None)"

definition binaryExtensions :: "jsstring list" where
  "binaryExtensions =
     [js ''.png'', js ''.jpg'', js ''.jpeg'', js ''.gif'', js ''.bmp'', js ''.ico'', js ''.webp'',
      js ''.mp3'', js ''.mp4'', js ''.wav'', js ''.ogg'', js ''.avi'', js ''.mov'', js ''.flv'',
      js ''.zip'', js ''.tar'', js ''.gz'', js ''.rar'', js ''.7z'',
      js ''.exe'', js ''.dll'', js ''.so'', js ''.dylib'',
      js ''.pdf'', js ''.doc'', js ''.docx'', js ''.xls'', js ''.xlsx'', js ''.ppt'', js ''.pptx'']"

text \<open>
  \<open>filename.substring(filename.lastIndexOf('.'))\<close>: \<open>substring(-1)\<close> is the whole
  string, so a name without a dot is its own extension.
\<close>

definition isBinaryFile :: "jsstring \<Rightarrow> bool" where
  "isBinaryFile filename =
     (let ext = toLowerCase (case lastIndexOf DOT filename of
                               None \<Rightarrow> filename | Some i \<Rightarrow> drop i filename)
      in ext \<in> set binaryExtensions)"

text \<open>The decimal numeral of a size, as a template literal prints it.\<close>

fun showNat :: "nat \<Rightarrow> jsstring" where
  "showNat n = (if n < 10 then [0x30 + of_nat n] else showNat (n div 10) @ [0x30 + of_nat (n mod 10)])"

definition fileHeader :: "jsstring \<Rightarrow> jsstring" where
  "fileHeader path = eq50 @ [NL] @ js ''File: '' @ path @ [NL] @ eq50 @ [NL]"

text \<open>
  The message of the \<open>TypeError\<close> that \<open>Buffer.from(undefined, 'base64')\<close>
  throws, when the answer for a file is a listing and has no \<open>content\<close>.
\<close>

definition bufferTypeError :: jsstring where
  "bufferTypeError = js (''The first argument must be of type string or an instance of Buffer, ''
     @ ''ArrayBuffer, or Array or an Array-like Object. Received undefined'')"

text \<open>
  The branch of \<open>_generateContent\<close> for an entry of type \<open>file\<close>: the text appended
  to \<open>content\<close>, and the paths fetched from the remote repository.
  \<open>Buffer.from(_, 'base64').toString('utf-8')\<close> belongs to the host and is the
  parameter \<open>decode\<close>.
\<close>

definition fileSection :: "(jsstring \<Rightarrow> jsstring) \<Rightarrow> remote \<Rightarrow> entry \<Rightarrow> jsstring
    \<Rightarrow> jsstring \<times> jsstring list" where
  "fileSection decode remote item p =
     (if isBinaryFile (name item) \<or> size' item > 1000000 then
        (fileHeader p @ js ''[Binary or large file: '' @ showNat (size' item) @ js '' bytes]''
           @ [NL, NL], [])
      else
        (case remote p of
           FileObject c \<Rightarrow> (fileHeader p @ decode c @ [NL, NL], [p])
         | Failure message \<Rightarrow>
             (fileHeader p @ js ''[Error loading file: '' @ message @ js '']'' @ [NL, NL], [p])
         | Listing l \<Rightarrow>
             (fileHeader p @ js ''[Error loading file: '' @ bufferTypeError @ js '']''
                @ [NL, NL], [p])))"

text \<open>
  \<open>_generateContent\<close>, with the same fuel as the Tree Builder. The result is
  the content and the paths fetched, in order. A failed fetch of a
  subdirectory, and an answer for it that is not a listing (iterating it
  throws), are caught and add nothing.
\<close>

fun generateContent :: "nat \<Rightarrow> (jsstring \<Rightarrow> jsstring) \<Rightarrow> remote \<Rightarrow> entry list \<Rightarrow> jsstring
    \<Rightarrow> (jsstring \<times> jsstring list) option" where
  "generateContent fuel decode remote [] path = Some ([], [])"
| "generateContent fuel decode remote (item # items) path =
     (if type item = js ''file'' then
        map_option
          (\<lambda>(c, fetched). (fst (fileSection decode remote item (itemPath path item)) @ c,
             snd (fileSection decode remote item (itemPath path item)) @ fetched))
          (generateContent fuel decode remote items path)
      else if type item = js ''dir'' then
        (case remote (itemPath path item) of
           Listing subContents \<Rightarrow>
             (case fuel of
                0 \<Rightarrow> None
              | Suc fuel' \<Rightarrow>
                  (case generateContent fuel' decode remote subContents (itemPath path item) of
                     None \<Rightarrow> None
                   | Some (sub, subFetched) \<Rightarrow>
                       map_option
                         (\<lambda>(c, fetched). (sub @ c, itemPath path item # subFetched @ fetched))
                         (generateContent fuel decode remote items path)))
         | _ \<Rightarrow>
             map_option (\<lambda>(c, fetched). (c, itemPath path item # fetched))
               (generateContent fuel decode remote items path))
      else generateContent fuel decode remote items path)"

text \<open>
  The extension of a file name as the specification uses the word: the last dot
  and what follows it; a name without a dot has none. \<open>deniedExtension\<close> is
  the specification's test, to be compared with \<open>isBinaryFile\<close>.
\<close>

definition extension :: "jsstring \<Rightarrow> jsstring option" where
  "extension filename =
     (if DOT \<in> set filename then Some (DOT # rev (takeWhile (\<lambda>c. c \<noteq> DOT) (rev filename)))
      else None)"

definition deniedExtension :: "jsstring \<Rightarrow> bool" where
  "deniedExtension filename =
     (case extension filename of
        None \<Rightarrow> False
      | Some e \<Rightarrow> toLowerCase e \<in> set binaryExtensions)"

text \<open>
  \<open>depthWithin fuel remote contents path\<close>: below the listing \<open>contents\<close> of
  \<open>path\<close>, the directories that the remote repository lists are nested at most
  \<open>fuel\<close> deep.
\<close>

primrec depthWithin :: "nat \<Rightarrow> remote \<Rightarrow> entry list \<Rightarrow> jsstring \<Rightarrow> bool" where
  "depthWithin 0 remote contents path =
     list_all (\<lambda>item. type item = js ''dir'' \<longrightarrow>
       (case remote (itemPath path item) of Listing subContents \<Rightarrow> False | _ \<Rightarrow> True)) contents"
| "depthWithin (Suc fuel) remote contents path =
     list_all (\<lambda>item. type item = js ''dir'' \<longrightarrow>
       (case remote (itemPath path item) of
          Listing subContents \<Rightarrow> depthWithin fuel remote subContents (itemPath path item)
        | _ \<Rightarrow> True)) contents"

text \<open>
  An instance of the host's \<open>localeCompare\<close>, for names made of ASCII letters,
  digits and dots, under the root collation of ICU (the default of Node.js for
  English locales): strings are compared without regard to case first, and
  strings that differ only in case are ordered by the first such difference,
  lower case before upper case. It is used for concrete inputs only.
\<close>

definition collationKey :: "jsstring \<Rightarrow> jsstring \<times> bool list" where
  "collationKey s = (toLowerCase s, map (\<lambda>c. 0x41 \<le> c \<and> c \<le> 0x5A) s)"

definition localeCompareRoot :: "jsstring \<Rightarrow> jsstring \<Rightarrow> int" where
  "localeCompareRoot a b =
     (if collationKey a < collationKey b then - 1
      else if collationKey a = collationKey b then 0 else 1)"

section \<open>Example repositories\<close>

definition fileEntry :: "string \<Rightarrow> nat \<Rightarrow> entry" where
  "fileEntry n s = \<lparr> name = js n, type = js ''file'', size' = s \<rparr>"

definition dirEntry :: "string \<Rightarrow> entry" where
  "dirEntry n = \<lparr> name = js n, type = js ''dir'', size' = 0 \<rparr>"

text \<open>
  The repository of the specification's end-to-end scenario: \<open>src/index.js\<close> and
  \<open>README.md\<close>. File contents are kept undecoded (\<open>decode\<close> is the identity in
  the examples).
\<close>

definition scenarioRoot :: "entry list" where
  "scenarioRoot = [dirEntry ''src'', fileEntry ''README.md'' 120]"

definition scenarioRemote :: remote where
  "scenarioRemote p =
     (if p = js ''src'' then Listing [fileEntry ''index.js'' 45]
      else if p = js ''src/index.js'' then FileObject (js ''console.log(1)'')
      else if p = js ''README.md'' then FileObject (js ''# Title'')
      else Failure (js ''Not Found''))"


section \<open>Definitions for stating the properties of the File Extractor\<close>

text \<open>
  The sections that the \<open>while\<close> loop parses, in order: the recorded name
  (\<open>filename\<close>) and the trimmed body (\<open>fileContent\<close>) of each iteration.
\<close>

function sections :: "jsstring \<Rightarrow> (jsstring \<times> jsstring) list" where
  "sections s =
     (case exec s of
        None \<Rightarrow> []
      | Some (index, g1, len) \<Rightarrow>
          (let rest = drop (index + len) s;
               endPos = (case indexOf nextHeader rest of
                           Some n \<Rightarrow> n | None \<Rightarrow> length rest)
           in (trim g1, trim (take endPos rest)) # sections rest))"
  by pat_completeness auto
termination
  by (relation "measure length") (auto dest: exec_shorter)

text \<open>The result object when the \<open>while\<close> loop has ended.\<close>

definition resultObject :: "jsstring \<Rightarrow> jsstring list \<Rightarrow> jsobject" where
  "resultObject contentStr filePaths =
     whileLoop contentStr filePaths (foldl (\<lambda>r path. objSet r path None) emptyObject filePaths)"

text \<open>The body of the last section that a path matches, if any.\<close>

definition lastMatch :: "(jsstring \<times> jsstring) list \<Rightarrow> jsstring \<Rightarrow> jsstring option" where
  "lastMatch secs path =
     (case filter (\<lambda>sec. pathMatches path (fst sec)) secs of
        [] \<Rightarrow> None
      | ms \<Rightarrow> Some (snd (last ms)))"

text \<open>Texts joined with a blank line between them.\<close>

fun joinBlank :: "jsstring list \<Rightarrow> jsstring" where
  "joinBlank [] = []"
| "joinBlank [x] = x"
| "joinBlank (x # y # ys) = x @ [NL, NL] @ joinBlank (y # ys)"

text \<open>A body under the three-line header that names \<open>path\<close>.\<close>

definition wrapFile :: "jsstring \<Rightarrow> jsstring \<Rightarrow> jsstring" where
  "wrapFile path body = eq50 @ [NL] @ js ''File: '' @ path @ [NL] @ eq50 @ [NL] @ body"

text \<open>
  \<open>clearOf u t\<close>: when \<open>u\<close> is followed by \<open>t\<close>, no occurrence of the searched text
  \<open>nextHeader\<close> starts inside \<open>u\<close>.
\<close>

definition clearOf :: "jsstring \<Rightarrow> jsstring \<Rightarrow> bool" where
  "clearOf u t = list_all (\<lambda>w. w = [] \<or> \<not> prefix nextHeader (w @ t)) (suffixes u)"

text \<open>The entries of the result object whose value is not \<open>null\<close>.\<close>

fun nonNull :: "(jsstring \<times> jsstring option) list \<Rightarrow> (jsstring \<times> jsstring) list" where
  "nonNull [] = []"
| "nonNull ((p, None) # es) = nonNull es"
| "nonNull ((p, Some c) # es) = (p, c) # nonNull es"

text \<open>A list of paths without its repetitions: every path stays at its first place.\<close>

definition firstOccurrences :: "jsstring list \<Rightarrow> jsstring list" where
  "firstOccurrences ps = rev (remdups (rev ps))"

text \<open>
  \<open>settable obj p\<close>: assigning to the key \<open>p\<close> of \<open>obj\<close> creates or updates an own
  property (it does not go to the inherited \<open>__proto__\<close> accessor).
\<close>

definition settable :: "jsobject \<Rightarrow> jsstring \<Rightarrow> bool" where
  "settable obj p \<longleftrightarrow> p \<noteq> js ''__proto__'' \<or> protoNull obj \<or> p \<in> fst ` set (props obj)"

text \<open>The blob that holds the given names and bodies as sections, in order.\<close>

definition blobOf :: "(jsstring \<times> jsstring) list \<Rightarrow> jsstring" where
  "blobOf pbs = concat (map (\<lambda>pb. fileHeader (fst pb) @ snd pb @ [NL, NL]) pbs)"

section \<open>A fetch cycle\<close>


text \<open>A fresh instance, and an instance that holds a given content blob.\<close>

definition freshIngester :: GitIngester where
  "freshIngester =
     \<lparr> url = js ''https://github.com/o/r'', branch = None, owner = js ''o'', repo = js ''r'',
       summary = None, tree = None, content = None \<rparr>"

definition ingesterWith :: "jsstring \<Rightarrow> GitIngester" where
  "ingesterWith blob = freshIngester\<lparr> content := Some blob \<rparr>"

section \<open>The order of a traversal\<close>

text \<open>
  Both traversals visit the entries of a listing one after the other and
  descend into a directory before they go on. \<open>walk ord\<close> is this traversal
  with the listing of every subdirectory arranged by \<open>ord\<close>: the identity for
  the Content Serializer, \<open>sortedContents\<close> for the Tree Builder. A visit records
  the path of the listing and the entry.
\<close>

datatype visit = Leaf jsstring entry | Directory jsstring entry | Broken jsstring entry

fun walk :: "(entry list \<Rightarrow> entry list) \<Rightarrow> nat \<Rightarrow> remote \<Rightarrow> entry list \<Rightarrow> jsstring
    \<Rightarrow> visit list option" where
  "walk ord fuel remote [] path = Some []"
| "walk ord fuel remote (item # items) path =
     (if type item = js ''dir'' then
        (case remote (itemPath path item) of
           Listing subContents \<Rightarrow>
             (case fuel of
                0 \<Rightarrow> None
              | Suc fuel' \<Rightarrow>
                  (case walk ord fuel' remote (ord subContents) (itemPath path item) of
                     None \<Rightarrow> None
                   | Some below \<Rightarrow>
                       map_option (\<lambda>rest. Directory path item # below @ rest)
                         (walk ord fuel remote items path)))
         | _ \<Rightarrow> map_option (\<lambda>rest. Broken path item # rest) (walk ord fuel remote items path))
      else map_option (\<lambda>rest. Leaf path item # rest) (walk ord fuel remote items path))"

text \<open>The text of the Tree Builder for a visit.\<close>

fun treeLine :: "visit \<Rightarrow> jsstring" where
  "treeLine (Leaf path item) = indent path @ pageIcon @ js '' '' @ name item @ [NL]"
| "treeLine (Directory path item) =
     indent path @ folderIcon @ js '' '' @ name item @ js ''/'' @ [NL]"
| "treeLine (Broken path item) =
     indent path @ folderIcon @ js '' '' @ name item @ js ''/'' @ [NL]
       @ indent path @ js ''  '' @ warningIcon @ js '' Error loading directory contents'' @ [NL]"

text \<open>The text of the Content Serializer for a visit: a section for a file, nothing else.\<close>

fun contentPiece :: "(jsstring \<Rightarrow> jsstring) \<Rightarrow> remote \<Rightarrow> visit \<Rightarrow> jsstring" where
  "contentPiece decode remote (Leaf path item) =
     (if type item = js ''file'' then fst (fileSection decode remote item (itemPath path item))
      else [])"
| "contentPiece decode remote (Directory path item) = []"
| "contentPiece decode remote (Broken path item) = []"

text \<open>The files of a traversal, in order: full path and entry.\<close>

fun fileVisits :: "visit list \<Rightarrow> (jsstring \<times> entry) list" where
  "fileVisits [] = []"
| "fileVisits (Leaf path item # vs) =
     (if type item = js ''file'' then (itemPath path item, item) # fileVisits vs
      else fileVisits vs)"
| "fileVisits (v # vs) = fileVisits vs"

text \<open>The listings that a traversal has entered are already in the Tree Builder's order.\<close>

fun listingsSorted :: "(jsstring \<Rightarrow> jsstring \<Rightarrow> int) \<Rightarrow> remote \<Rightarrow> visit list \<Rightarrow> bool" where
  "listingsSorted lc remote [] = True"
| "listingsSorted lc remote (Directory path item # vs) =
     ((case remote (itemPath path item) of
         Listing subContents \<Rightarrow> sortedContents lc subContents = subContents
       | _ \<Rightarrow> True) \<and> listingsSorted lc remote vs)"
| "listingsSorted lc remote (v # vs) = listingsSorted lc remote vs"

text \<open>A repository where the two orders differ: \<open>b.txt\<close> is listed before the directory \<open>A\<close>.\<close>

definition unsortedRoot :: "entry list" where
  "unsortedRoot = [fileEntry ''b.txt'' 7, dirEntry ''A'']"

definition unsortedRemote :: remote where
  "unsortedRemote p =
     (if p = js ''A'' then Listing [fileEntry ''c.txt'' 3]
      else if p = js ''A/c.txt'' then FileObject (js ''see'')
      else if p = js ''b.txt'' then FileObject (js ''bee'')
      else Failure (js ''Not Found''))"



text \<open>The content blob of the scenario, and a blob with one nested \<open>README.md\<close>.\<close>

definition scenarioBlob :: jsstring where
  "scenarioBlob =
     blobOf [(js ''src/index.js'', js ''console.log(1)''), (js ''README.md'', js ''# Title'')]"

definition docsBlob :: jsstring where
  "docsBlob = blobOf [(js ''docs/README.md'', js ''hello'')]"

text \<open>A blob with a file named \<open>b\<close> and a file named \<open>1\<close>.\<close>

definition numberedBlob :: jsstring where
  "numberedBlob = blobOf [(js ''b'', js ''bee''), (js ''1'', js ''one'')]"

text \<open>
  The non-null entries of the result object in the order of \<open>Object.entries\<close>,
  from the parsed sections and the requested paths.
\<close>

definition extracted :: "(jsstring \<times> jsstring) list \<Rightarrow> jsstring list \<Rightarrow> (jsstring \<times> jsstring) list" where
  "extracted secs ps =
     nonNull (ownEntries (map (\<lambda>p. (p, lastMatch secs p)) (firstOccurrences ps)))"

text \<open>
  Names and bodies that the File Extractor reads back unchanged: a name is not
  empty and has no line feed, a body holds no occurrence of \<open>nextHeader\<close>, and
  neither has white space at its ends.
\<close>

definition plainSections :: "(jsstring \<times> jsstring) list \<Rightarrow> bool" where
  "plainSections pbs =
     list_all (\<lambda>pb. fst pb \<noteq> [] \<and> NL \<notin> set (fst pb) \<and> \<not> sublist nextHeader (snd pb) \<and>
                trim (fst pb) = fst pb \<and> trim (snd pb) = snd pb) pbs"



text \<open>
  A repository for the branches of the Content Serializer on a file: the remote
  answers \<open>docs/notes.txt\<close> with a file object whose content is the base64
  text \<open>aGVsbG8=\<close>, and the host's decoding of that text is \<open>hello\<close>.
\<close>

definition notesRemote :: remote where
  "notesRemote p =
     (if p = js ''docs/notes.txt'' then FileObject (js ''aGVsbG8='')
      else Failure (js ''Not Found''))"

definition notesDecode :: "jsstring \<Rightarrow> jsstring" where
  "notesDecode c = (if c = js ''aGVsbG8='' then js ''hello'' else [])"


section \<open>Basic facts\<close>

lemma dir_not_file [simp]: "js ''dir'' \<noteq> js ''file''" "js ''file'' \<noteq> js ''dir''"
  by (simp_all add: js_def)

lemma example_entries:
  "type (dirEntry n) = js ''dir''" "type (fileEntry n s) \<noteq> js ''dir''"
  "type (fileEntry n s) = js ''file''"
  "name (dirEntry n) = js n" "name (fileEntry n s) = js n" "size' (fileEntry n s) = s"
  by (simp_all add: dirEntry_def fileEntry_def)


section \<open>Accessors of a fresh instance\<close>

lemma constructor_example:
  "constructor (js ''https://github.com/o/r'') None =
     Inr \<lparr> url = js ''https://github.com/o/r'', branch = None, owner = js ''o'',
           repo = js ''r'', summary = None, tree = None, content = None \<rparr>"
  by code_simp

text \<open>
  Claim C9. On an instance that the constructor has just returned, before any
  fetch cycle, no accessor throws: \<open>getSummary\<close> returns
  \<open>Summary not available\<close>, \<open>getTree\<close> returns \<open>Tree structure not available\<close>,
  and \<open>getContent\<close>, called without a list of paths or with any list, returns
  \<open>Content not available\<close>.
\<close>

theorem C9_fresh_accessors:
  "constructor u b = Inr g \<Longrightarrow>
     getSummary g = js ''Summary not available'' \<and>
     getTree g = js ''Tree structure not available'' \<and>
     getContent g None = js ''Content not available'' \<and>
     getContent g (Some filePaths) = js ''Content not available''"
  by (auto simp: constructor_def getSummary_def getTree_def getContent_def
      getFilesContent_def truthy_def split: option.splits)

theorem C9_fresh_accessors_witness:
  "constructor (js ''https://github.com/o/r'') None =
     Inr \<lparr> url = js ''https://github.com/o/r'', branch = None, owner = js ''o'',
           repo = js ''r'', summary = None, tree = None, content = None \<rparr> \<and>
   getSummary \<lparr> url = js ''https://github.com/o/r'', branch = None, owner = js ''o'',
           repo = js ''r'', summary = None, tree = None, content = None \<rparr>
     = js ''Summary not available'' \<and>
   getContent \<lparr> url = js ''https://github.com/o/r'', branch = None, owner = js ''o'',
           repo = js ''r'', summary = None, tree = None, content = None \<rparr>
     (Some [js ''README.md'']) = js ''Content not available''"
  using C9_fresh_accessors [OF constructor_example, of "[js ''README.md'']"]
    constructor_example
  by simp

section \<open>Parsing the repository URL\<close>

lemma js_https: "js ''https://'' = [104, 116, 116, 112, 115, 58, 47, 47]"
  by (simp add: js_def)

lemma js_github_units: "js ''github.com/'' = [103, 105, 116, 104, 117, 98, 46, 99, 111, 109, 47]"
  by (simp add: js_def)

lemma js_github: "js ''github.com/'' = js ''github.com'' @ [SLASH]"
  by (simp add: js_def SLASH_def)

lemma no_slash_github: "SLASH \<notin> set (js ''github.com'')"
  by (simp add: js_def SLASH_def)

lemma takeWhile_no_slash:
  "SLASH \<notin> set a \<Longrightarrow> takeWhile (\<lambda>c. c \<noteq> SLASH) (a @ SLASH # t) = a"
  by (induction a) auto

lemma dropWhile_no_slash:
  "SLASH \<notin> set a \<Longrightarrow> dropWhile (\<lambda>c. c \<noteq> SLASH) (a @ SLASH # t) = SLASH # t"
  by (induction a) auto

lemma takeWhile_no_slash_all:
  "SLASH \<notin> set a \<Longrightarrow> takeWhile (\<lambda>c. c \<noteq> SLASH) a = a"
  by (induction a) auto

lemma urlMatch_at_here:
  assumes "g1 \<noteq> []" "g2 \<noteq> []" "SLASH \<notin> set g1" "SLASH \<notin> set g2"
  shows "urlMatch_at (js ''github.com/'' @ g1 @ SLASH # g2) = Some (g1, g2)"
proof -
  have "length (js ''github.com/'') = 11" by (simp add: js_def)
  then have "drop 11 (js ''github.com/'' @ g1 @ SLASH # g2) = g1 @ SLASH # g2" by simp
  with assms show ?thesis
    by (simp add: urlMatch_at_def Let_def takeWhile_no_slash dropWhile_no_slash
        takeWhile_no_slash_all)
qed

lemma urlMatch_atD:
  assumes "urlMatch_at s = Some m"
  shows "prefix (js ''github.com/'') s"
    and "dropWhile (\<lambda>c. c \<noteq> SLASH) (drop 11 s) \<noteq> []"
proof -
  show "prefix (js ''github.com/'') s"
    using assms unfolding urlMatch_at_def by (simp split: if_splits)
  then show "dropWhile (\<lambda>c. c \<noteq> SLASH) (drop 11 s) \<noteq> []"
    using assms unfolding urlMatch_at_def Let_def by (simp split: if_splits)
qed

lemma urlMatch_at_prefix:
  assumes "urlMatch_at s = Some m"
  shows "takeWhile (\<lambda>c. c \<noteq> SLASH) s = js ''github.com''"
proof -
  from assms have "prefix (js ''github.com/'') s" by (rule urlMatch_atD)
  then obtain t where "s = js ''github.com'' @ SLASH # t"
    by (auto simp: prefix_def js_github)
  then show ?thesis using no_slash_github by (simp add: takeWhile_no_slash)
qed

lemma urlMatch_at_later:
  assumes "h \<noteq> []" "SLASH \<notin> set h"
  shows "urlMatch_at (h @ js ''github.com/'' @ t) = None"
proof (cases "urlMatch_at (h @ js ''github.com/'' @ t)")
  case None
  then show ?thesis .
next
  case (Some m)
  then have "takeWhile (\<lambda>c. c \<noteq> SLASH) (h @ js ''github.com/'' @ t) = js ''github.com''"
    by (rule urlMatch_at_prefix)
  moreover have "takeWhile (\<lambda>c. c \<noteq> SLASH) ((h @ js ''github.com'') @ SLASH # t)
      = h @ js ''github.com''"
    using assms no_slash_github by (intro takeWhile_no_slash) auto
  ultimately have "h @ js ''github.com'' = js ''github.com''" by (simp add: js_github)
  with assms show ?thesis by simp
qed

lemma urlMatch_host:
  assumes "SLASH \<notin> set h" "g1 \<noteq> []" "g2 \<noteq> []" "SLASH \<notin> set g1" "SLASH \<notin> set g2"
  shows "urlMatch (h @ js ''github.com/'' @ g1 @ SLASH # g2) = Some (g1, g2)"
  using assms(1)
proof (induction h)
  case Nil
  have "js ''github.com/'' @ g1 @ SLASH # g2 = 103 # (js ''ithub.com/'' @ g1 @ SLASH # g2)"
    by (simp add: js_def)
  moreover have "urlMatch (103 # (js ''ithub.com/'' @ g1 @ SLASH # g2)) = Some (g1, g2)"
    using urlMatch_at_here [OF assms(2-5)] calculation by simp
  ultimately show ?case by simp
next
  case (Cons c h)
  then have "urlMatch_at ((c # h) @ js ''github.com/'' @ g1 @ SLASH # g2) = None"
    by (intro urlMatch_at_later) auto
  with Cons show ?case by simp
qed

lemma urlMatch_at_first: "c \<noteq> 103 \<Longrightarrow> urlMatch_at (c # s) = None"
  by (simp add: urlMatch_at_def js_github_units)

lemma urlMatch_https: "urlMatch (js ''https://'' @ s) = urlMatch s"
  by (simp add: js_https urlMatch_at_first)

lemma urlMatch_at_slashes:
  assumes "urlMatch_at s = Some m"
  shows "2 \<le> length (filter (\<lambda>c. c = SLASH) s)"
proof -
  from assms have p: "prefix (js ''github.com/'') s"
    and d: "dropWhile (\<lambda>c. c \<noteq> SLASH) (drop 11 s) \<noteq> []"
    by (rule urlMatch_atD)+
  from p obtain t where s: "s = js ''github.com/'' @ t" by (auto simp: prefix_def)
  have "length (js ''github.com/'') = 11" by (simp add: js_def)
  with s d have "dropWhile (\<lambda>c. c \<noteq> SLASH) t \<noteq> []" by simp
  then have "SLASH \<in> set t" by (simp add: dropWhile_eq_Nil_conv)
  then have "filter (\<lambda>c. c = SLASH) t \<noteq> []" by (auto simp: filter_empty_conv)
  then have "1 \<le> length (filter (\<lambda>c. c = SLASH) t)"
    by (simp add: Suc_le_eq)
  moreover have "length (filter (\<lambda>c. c = SLASH) (js ''github.com/'')) = 1"
    by (simp add: js_def SLASH_def)
  ultimately show ?thesis using s by simp
qed

lemma urlMatch_slashes:
  "urlMatch s = Some m \<Longrightarrow> 2 \<le> length (filter (\<lambda>c. c = SLASH) s)"
proof (induction s)
  case Nil
  then show ?case by simp
next
  case (Cons c cs)
  show ?case
  proof (cases "urlMatch_at (c # cs)")
    case None
    with Cons.prems have "urlMatch cs = Some m" by simp
    then have "2 \<le> length (filter (\<lambda>c. c = SLASH) cs)" by (rule Cons.IH)
    then show ?thesis by simp
  next
    case (Some a)
    then show ?thesis by (rule urlMatch_at_slashes)
  qed
qed

lemma urlMatch_no_repo:
  assumes "SLASH \<notin> set host" "SLASH \<notin> set g1"
  shows "urlMatch (js ''https://'' @ host @ SLASH # g1) = None"
proof (cases "urlMatch (host @ SLASH # g1)")
  case None
  then show ?thesis by (simp only: urlMatch_https)
next
  case (Some m)
  then have "2 \<le> length (filter (\<lambda>c. c = SLASH) (host @ SLASH # g1))"
    by (rule urlMatch_slashes)
  moreover have "filter (\<lambda>c. c = SLASH) host = []" "filter (\<lambda>c. c = SLASH) g1 = []"
    using assms by (auto simp: filter_empty_conv)
  ultimately show ?thesis by simp
qed

text \<open>
  Claim C5, as the constructor has it. The pattern looks for the literal
  \<open>github.com/\<close>, so the two segments are found when the host ends with
  \<open>github.com\<close>: for every URL \<open>https://<h>github.com/<owner>/<repo>\<close> with
  non-empty, slash-free segments, construction succeeds with exactly these two
  segments as \<open>owner\<close> and \<open>repo\<close>. For every URL \<open>https://<host>/<owner>\<close>
  with no repo segment, whatever the host, construction fails with the error
  \<open>Invalid GitHub URL format\<close> and produces no handle.
\<close>

theorem C5_constructor_github:
  "SLASH \<notin> set h \<Longrightarrow> g1 \<noteq> [] \<Longrightarrow> g2 \<noteq> [] \<Longrightarrow> SLASH \<notin> set g1 \<Longrightarrow> SLASH \<notin> set g2 \<Longrightarrow>
   SLASH \<notin> set host \<Longrightarrow>
     (\<exists>g. constructor (js ''https://'' @ h @ js ''github.com/'' @ g1 @ SLASH # g2) b = Inr g \<and>
          owner g = g1 \<and> repo g = g2) \<and>
     constructor (js ''https://'' @ host @ SLASH # g1) b
       = Inl (Error (js ''Invalid GitHub URL format''))"
proof -
  assume a: "SLASH \<notin> set h" "g1 \<noteq> []" "g2 \<noteq> []" "SLASH \<notin> set g1" "SLASH \<notin> set g2"
    and b: "SLASH \<notin> set host"
  have "urlMatch (js ''https://'' @ h @ js ''github.com/'' @ g1 @ SLASH # g2) = Some (g1, g2)"
    using urlMatch_host [OF a] by (simp only: urlMatch_https)
  moreover have "urlMatch (js ''https://'' @ host @ SLASH # g1) = None"
    using b a(4) by (rule urlMatch_no_repo)
  ultimately show ?thesis by (simp add: constructor_def)
qed

theorem C5_constructor_github_witness:
  "(\<exists>g. constructor (js ''https://'' @ js ''www.'' @ js ''github.com/'' @ js ''facebook''
           @ SLASH # js ''react'') None = Inr g \<and>
        owner g = js ''facebook'' \<and> repo g = js ''react'') \<and>
   constructor (js ''https://'' @ js ''github.com'' @ SLASH # js ''facebook'') None
     = Inl (Error (js ''Invalid GitHub URL format''))"
  using C5_constructor_github [of "js ''www.''" "js ''facebook''" "js ''react''"
      "js ''github.com''" None]
  by (simp add: js_def SLASH_def)

text \<open>
  The claim as written covers every host. A repository URL on another host is
  rejected, although it has both segments.
\<close>

theorem C5_other_host_counterexample:
  "constructor (js ''https://gitlab.com/owner/repo'') None
     = Inl (Error (js ''Invalid GitHub URL format''))"
  by code_simp

section \<open>Binary and large files\<close>

lemma drop_last_occurrence:
  assumes "c \<in> set s"
  shows "drop (length s - 1 - length (takeWhile (\<lambda>d. d \<noteq> c) (rev s))) s
    = c # rev (takeWhile (\<lambda>d. d \<noteq> c) (rev s))"
proof -
  define tw where "tw = takeWhile (\<lambda>d. d \<noteq> c) (rev s)"
  define dw where "dw = dropWhile (\<lambda>d. d \<noteq> c) (rev s)"
  have "dw \<noteq> []" using assms by (simp add: dw_def)
  moreover have "hd dw = c" unfolding dw_def
    using \<open>dw \<noteq> []\<close> hd_dropWhile [of "\<lambda>d. d \<noteq> c" "rev s"] by (simp add: dw_def)
  ultimately obtain rest where dw: "dw = c # rest" by (cases dw) auto
  have "rev s = tw @ dw" by (simp add: tw_def dw_def)
  then have "rev (rev s) = rev (tw @ c # rest)" using dw by simp
  then have s: "s = rev rest @ c # rev tw" by simp
  have "length s - 1 - length tw = length (rev rest)" by (subst s) simp
  then have "drop (length s - 1 - length tw) s = drop (length (rev rest)) (rev rest @ c # rev tw)"
    using s by simp
  then show ?thesis by (simp add: tw_def)
qed

lemma lower_not_dot:
  fixes c :: jschar
  assumes "0x41 \<le> c" "c \<le> 0x5A"
  shows "c + 0x20 \<noteq> 0x2E" "c \<noteq> 0x2E"
  using assms by unat_arith+

lemma dot_toLowerCase: "DOT \<in> set (toLowerCase s) \<longleftrightarrow> DOT \<in> set s"
proof (induction s)
  case Nil
  then show ?case by (simp add: toLowerCase_def)
next
  case (Cons c s)
  have "(if 0x41 \<le> c \<and> c \<le> 0x5A then c + 0x20 else c) = DOT \<longleftrightarrow> c = DOT"
    using lower_not_dot [of c] by (auto simp: DOT_def)
  with Cons show ?case by (auto simp: toLowerCase_def)
qed

lemma binaryExtensions_dot: "list_all (\<lambda>e. DOT \<in> set e) binaryExtensions"
  by code_simp

lemma isBinaryFile_iff: "isBinaryFile filename = deniedExtension filename"
proof (cases "DOT \<in> set filename")
  case True
  then show ?thesis
    using drop_last_occurrence [OF True]
    by (simp add: isBinaryFile_def deniedExtension_def extension_def lastIndexOf_def)
next
  case False
  then have "DOT \<notin> set (toLowerCase filename)" by (simp add: dot_toLowerCase)
  then have "toLowerCase filename \<notin> set binaryExtensions"
    using binaryExtensions_dot by (auto simp: list_all_iff)
  with False show ?thesis
    by (simp add: isBinaryFile_def deniedExtension_def extension_def lastIndexOf_def)
qed

lemma digit_unat:
  fixes k :: nat
  assumes "k < 10"
  shows "unat (of_nat k :: jschar) = k" "(of_nat k :: jschar) = 0 \<longleftrightarrow> k = 0"
proof -
  show u: "unat (of_nat k :: jschar) = k" using assms by (simp add: unat_of_nat)
  show "(of_nat k :: jschar) = 0 \<longleftrightarrow> k = 0"
  proof
    assume "(of_nat k :: jschar) = 0"
    then have "unat (of_nat k :: jschar) = 0" by simp
    with u show "k = 0" by simp
  next
    assume "k = 0"
    then show "(of_nat k :: jschar) = 0" by simp
  qed
qed

lemma digit_word:
  fixes k :: nat
  assumes "k < 10"
  shows "isDigit (0x30 + of_nat k)" "unat ((0x30 :: jschar) + of_nat k - 0x30) = k"
proof -
  have u: "unat (of_nat k :: jschar) = k" using assms by (rule digit_unat)
  have s: "unat ((0x30 :: jschar) + of_nat k) = 48 + k"
    using assms u by (simp add: unat_word_ariths)
  show "isDigit (0x30 + of_nat k)"
    unfolding isDigit_def word_le_nat_alt s using assms by simp
  show "unat ((0x30 :: jschar) + of_nat k - 0x30) = k" using u by simp
qed

lemma showNat_digits: "list_all isDigit (showNat n)"
proof (induction n rule: showNat.induct)
  case (1 n)
  show ?case
  proof (cases "n < 10")
    case True
    then show ?thesis by (subst showNat.simps) (simp add: digit_word del: showNat.simps)
  next
    case False
    have "n mod 10 < 10" by simp
    then have "isDigit (0x30 + of_nat (n mod 10))" by (rule digit_word)
    with False 1 show ?thesis by (subst showNat.simps) (simp del: showNat.simps)
  qed
qed

lemma showNat_value: "indexValue (showNat n) = n"
proof (induction n rule: showNat.induct)
  case (1 n)
  show ?case
  proof (cases "n < 10")
    case True
    then show ?thesis by (subst showNat.simps) (simp add: indexValue_def digit_unat del: showNat.simps)
  next
    case False
    have "n mod 10 < 10" by simp
    then have "unat ((0x30 :: jschar) + of_nat (n mod 10) - 0x30) = n mod 10" by (rule digit_word)
    moreover have "indexValue (showNat (n div 10)) = n div 10"
      using False 1 by (simp del: showNat.simps)
    ultimately have "indexValue (showNat (n div 10) @ [0x30 + of_nat (n mod 10)]) = n"
      by (simp add: indexValue_def del: showNat.simps)
    with False show ?thesis by (subst showNat.simps) (simp del: showNat.simps)
  qed
qed

lemma showNat_leading: "showNat n \<noteq> [] \<and> (hd (showNat n) = 0x30 \<longrightarrow> n = 0)"
proof (induction n rule: showNat.induct)
  case (1 n)
  show ?case
  proof (cases "n < 10")
    case True
    then show ?thesis by (subst (1 2) showNat.simps) (simp add: digit_unat del: showNat.simps)
  next
    case False
    then have "showNat (n div 10) \<noteq> []" "hd (showNat (n div 10)) \<noteq> 0x30"
      using 1 by (auto simp del: showNat.simps)
    with False show ?thesis by (subst (1 2) showNat.simps) (simp del: showNat.simps)
  qed
qed

text \<open>
  Claim C4. Take an entry of type \<open>file\<close> on its own, listed under \<open>path\<close>; its
  full path is its name when \<open>path\<close> is empty and \<open>path/name\<close> otherwise. If
  its extension is in the deny-list, compared without regard to case, or its
  listed size exceeds 1,000,000, the Content Serializer emits the three-line
  header with the full path, the line \<open>[Binary or large file: <size> bytes]\<close>
  and a blank line, and fetches nothing; \<open><size>\<close> is the listed size in
  decimal digits, without a leading zero. Otherwise it fetches the full path,
  once, and when the answer is a file object it emits the header, the decoded
  content and a blank line.
\<close>

theorem C4_binary_or_large:
  "type item = js ''file'' \<Longrightarrow>
     (deniedExtension (name item) \<or> 1000000 < size' item \<longrightarrow>
        generateContent fuel decode remote [item] path =
          Some (eq50 @ [NL] @ js ''File: ''
                  @ (if path = [] then name item else path @ js ''/'' @ name item) @ [NL]
                  @ eq50 @ [NL]
                  @ js ''[Binary or large file: '' @ showNat (size' item) @ js '' bytes]''
                  @ [NL, NL], [])) \<and>
     (\<not> deniedExtension (name item) \<and> size' item \<le> 1000000 \<longrightarrow>
        (\<exists>text. generateContent fuel decode remote [item] path
                  = Some (text, [if path = [] then name item else path @ js ''/'' @ name item]) \<and>
           (\<forall>c. remote (if path = [] then name item else path @ js ''/'' @ name item)
                   = FileObject c \<longrightarrow>
              text = eq50 @ [NL] @ js ''File: ''
                       @ (if path = [] then name item else path @ js ''/'' @ name item) @ [NL]
                       @ eq50 @ [NL] @ decode c @ [NL, NL]))) \<and>
     showNat (size' item) \<noteq> [] \<and> list_all isDigit (showNat (size' item)) \<and>
     indexValue (showNat (size' item)) = size' item \<and>
     (hd (showNat (size' item)) = 0x30 \<longrightarrow> size' item = 0)"
proof -
  assume t: "type item = js ''file''"
  have sl: "js ''/'' = [SLASH]" by (simp add: js_def SLASH_def)
  have p: "itemPath path item = (if path = [] then name item else path @ js ''/'' @ name item)"
    by (simp add: itemPath_def sl)
  have "generateContent fuel decode remote [item] path =
          Some (fileSection decode remote item (itemPath path item))"
    using t by (simp del: showNat.simps)
  then show ?thesis
    unfolding p
    using showNat_leading [of "size' item"] showNat_digits [of "size' item"]
      showNat_value [of "size' item"]
    by (auto simp add: fileSection_def fileHeader_def isBinaryFile_iff
        simp del: showNat.simps split: response.splits)
qed

lemma showNat_examples:
  "showNat 12 = js ''12''" "showNat 1000001 = js ''1000001''" "showNat 0 = js ''0''"
  by (simp_all add: js_def)

lemma eq50_literal: "eq50 = js ''==================================================''"
  by code_simp

lemma denied_examples:
  "deniedExtension (js ''logo.PNG'')" "\<not> deniedExtension (js ''notes.txt'')"
  "\<not> deniedExtension (js ''big.txt'')" "deniedExtension (js ''empty.zip'')"
  by code_simp+

lemma path_examples:
  "js ''img'' \<noteq> []" "js ''docs'' \<noteq> []"
  "js ''img'' @ js ''/'' @ js ''logo.PNG'' = js ''img/logo.PNG''"
  "js ''docs'' @ js ''/'' @ js ''notes.txt'' = js ''docs/notes.txt''"
  by (simp_all add: js_def)

lemma notes_examples:
  "notesRemote (js ''docs/notes.txt'') = FileObject (js ''aGVsbG8='')"
  "notesDecode (js ''aGVsbG8='') = js ''hello''"
  by (simp_all add: notesRemote_def notesDecode_def)

lemma text_examples:
  "js ''File: '' @ js ''img/logo.PNG'' = js ''File: img/logo.PNG''"
  "js ''File: '' @ js ''big.txt'' = js ''File: big.txt''"
  "js ''File: '' @ js ''empty.zip'' = js ''File: empty.zip''"
  "js ''[Binary or large file: '' @ js ''0'' @ js '' bytes]''
     = js ''[Binary or large file: 0 bytes]''"
  "js ''File: '' @ js ''docs/notes.txt'' = js ''File: docs/notes.txt''"
  "js ''[Binary or large file: '' @ js ''12'' @ js '' bytes]''
     = js ''[Binary or large file: 12 bytes]''"
  "js ''[Binary or large file: '' @ js ''1000001'' @ js '' bytes]''
     = js ''[Binary or large file: 1000001 bytes]''"
  by (simp_all add: js_def)

theorem C4_binary_or_large_witness:
  "generateContent 0 notesDecode notesRemote [fileEntry ''logo.PNG'' 12] (js ''img'') =
     Some (js ''=================================================='' @ [NL]
             @ js ''File: img/logo.PNG'' @ [NL]
             @ js ''=================================================='' @ [NL]
             @ js ''[Binary or large file: 12 bytes]'' @ [NL, NL], []) \<and>
   generateContent 0 notesDecode notesRemote [fileEntry ''empty.zip'' 0] [] =
     Some (js ''=================================================='' @ [NL]
             @ js ''File: empty.zip'' @ [NL]
             @ js ''=================================================='' @ [NL]
             @ js ''[Binary or large file: 0 bytes]'' @ [NL, NL], []) \<and>
   generateContent 0 notesDecode notesRemote [fileEntry ''big.txt'' 1000001] [] =
     Some (js ''=================================================='' @ [NL]
             @ js ''File: big.txt'' @ [NL]
             @ js ''=================================================='' @ [NL]
             @ js ''[Binary or large file: 1000001 bytes]'' @ [NL, NL], []) \<and>
   generateContent 0 notesDecode notesRemote [fileEntry ''notes.txt'' 999999] (js ''docs'') =
     Some (js ''=================================================='' @ [NL]
             @ js ''File: docs/notes.txt'' @ [NL]
             @ js ''=================================================='' @ [NL]
             @ js ''hello'' @ [NL, NL], [js ''docs/notes.txt'']) \<and>
   generateContent 0 notesDecode notesRemote [fileEntry ''notes.txt'' 1000000] (js ''docs'') =
     Some (js ''=================================================='' @ [NL]
             @ js ''File: docs/notes.txt'' @ [NL]
             @ js ''=================================================='' @ [NL]
             @ js ''hello'' @ [NL, NL], [js ''docs/notes.txt''])"
proof -
  note facts = example_entries denied_examples path_examples showNat_examples text_examples
    notes_examples eq50_literal [symmetric]
  have png: "generateContent 0 notesDecode notesRemote [fileEntry ''logo.PNG'' 12] (js ''img'') =
     Some (eq50 @ [NL] @ js ''File: img/logo.PNG'' @ [NL] @ eq50 @ [NL]
             @ js ''[Binary or large file: 12 bytes]'' @ [NL, NL], [])"
    using C4_binary_or_large [of "fileEntry ''logo.PNG'' 12" 0 notesDecode notesRemote "js ''img''"]
    by (simp add: facts del: generateContent.simps showNat.simps)
  have zip: "generateContent 0 notesDecode notesRemote [fileEntry ''empty.zip'' 0] [] =
     Some (eq50 @ [NL] @ js ''File: empty.zip'' @ [NL] @ eq50 @ [NL]
             @ js ''[Binary or large file: 0 bytes]'' @ [NL, NL], [])"
    using C4_binary_or_large [of "fileEntry ''empty.zip'' 0" 0 notesDecode notesRemote "[]"]
    by (simp add: facts del: generateContent.simps showNat.simps)
  have big: "generateContent 0 notesDecode notesRemote [fileEntry ''big.txt'' 1000001] [] =
     Some (eq50 @ [NL] @ js ''File: big.txt'' @ [NL] @ eq50 @ [NL]
             @ js ''[Binary or large file: 1000001 bytes]'' @ [NL, NL], [])"
    using C4_binary_or_large [of "fileEntry ''big.txt'' 1000001" 0 notesDecode notesRemote "[]"]
    by (simp add: facts del: generateContent.simps showNat.simps)
  have fetch: "generateContent 0 notesDecode notesRemote [fileEntry ''notes.txt'' 999999] (js ''docs'') =
     Some (eq50 @ [NL] @ js ''File: docs/notes.txt'' @ [NL] @ eq50 @ [NL]
             @ js ''hello'' @ [NL, NL], [js ''docs/notes.txt''])"
    using C4_binary_or_large [of "fileEntry ''notes.txt'' 999999" 0 notesDecode notesRemote
        "js ''docs''"]
    by (auto simp add: facts simp del: generateContent.simps showNat.simps)
  have edge: "generateContent 0 notesDecode notesRemote [fileEntry ''notes.txt'' 1000000] (js ''docs'') =
     Some (eq50 @ [NL] @ js ''File: docs/notes.txt'' @ [NL] @ eq50 @ [NL]
             @ js ''hello'' @ [NL, NL], [js ''docs/notes.txt''])"
    using C4_binary_or_large [of "fileEntry ''notes.txt'' 1000000" 0 notesDecode notesRemote
        "js ''docs''"]
    by (auto simp add: facts simp del: generateContent.simps showNat.simps)
  show ?thesis
    unfolding eq50_literal [symmetric] using png zip big fetch edge by (intro conjI)
qed
section \<open>Traversal: concatenation and completion\<close>





lemma set_insertSorted: "set (insertSorted cmp x ys) = insert x (set ys)"
  by (induction ys) auto

lemma set_arraySort: "set (arraySort cmp xs) = set xs"
  by (induction xs) (simp_all add: arraySort_def set_insertSorted)

lemma depthWithin_sorted:
  "depthWithin fuel remote (sortedContents lc contents) path = depthWithin fuel remote contents path"
  by (cases fuel) (simp_all add: list_all_iff sortedContents_def set_arraySort)

lemma depthWithin_Cons:
  "depthWithin fuel remote (x # xs) path \<Longrightarrow> depthWithin fuel remote xs path"
  by (cases fuel) simp_all


lemma depthWithin_dir:
  assumes "depthWithin fuel remote (x # xs) path" "type x = js ''dir''"
    "remote (itemPath path x) = Listing sub"
  shows "\<exists>fuel'. fuel = Suc fuel' \<and> depthWithin fuel' remote sub (itemPath path x)"
  using assms by (cases fuel) simp_all

lemma treeLoop_completes:
  "depthWithin fuel remote items path \<Longrightarrow> \<exists>t. treeLoop fuel lc remote items path = Some t"
proof (induction fuel lc remote items path rule: treeLoop.induct)
  case (1 fuel lc remote path)
  show ?case by simp
next
  case (2 fuel lc remote item items path)
  from "2.prems" have rest: "depthWithin fuel remote items path" by (rule depthWithin_Cons)
  show ?case
  proof (cases "type item = js ''dir''")
    case False
    with "2.IH"(5) rest show ?thesis by auto
  next
    case dir: True
    show ?thesis
    proof (cases "remote (itemPath path item)")
      case (Listing sub)
      from depthWithin_dir [OF "2.prems" dir Listing] obtain fuel'
        where f: "fuel = Suc fuel'" and d: "depthWithin fuel' remote sub (itemPath path item)"
        by blast
      from d have "depthWithin fuel' remote (sortedContents lc sub) (itemPath path item)"
        by (simp add: depthWithin_sorted)
      with "2.IH"(1) [OF dir Listing f] obtain t
        where t: "treeLoop fuel' lc remote (sortedContents lc sub) (itemPath path item) = Some t"
        by blast
      from "2.IH"(2) [OF dir Listing f t] rest obtain r
        where "treeLoop fuel lc remote items path = Some r" by blast
      with dir Listing f t show ?thesis by simp
    next
      case (FileObject c)
      from "2.IH"(3) [OF dir FileObject] rest obtain r
        where "treeLoop fuel lc remote items path = Some r" by blast
      with dir FileObject show ?thesis by simp
    next
      case (Failure m)
      from "2.IH"(4) [OF dir Failure] rest obtain r
        where "treeLoop fuel lc remote items path = Some r" by blast
      with dir Failure show ?thesis by simp
    qed
  qed
qed

lemma generateContent_completes:
  "depthWithin fuel remote items path \<Longrightarrow>
     \<exists>c f. generateContent fuel decode remote items path = Some (c, f)"
proof (induction fuel decode remote items path rule: generateContent.induct)
  case (1 fuel decode remote path)
  show ?case by simp
next
  case (2 fuel decode remote item items path)
  from "2.prems" have rest: "depthWithin fuel remote items path" by (rule depthWithin_Cons)
  show ?case
  proof (cases "type item = js ''file''")
    case True
    with "2.IH"(1) rest show ?thesis by auto
  next
    case nofile: False
    show ?thesis
    proof (cases "type item = js ''dir''")
      case False
      with nofile "2.IH"(6) rest show ?thesis by auto
    next
      case dir: True
      show ?thesis
      proof (cases "remote (itemPath path item)")
        case (Listing sub)
        from depthWithin_dir [OF "2.prems" dir Listing] obtain fuel'
          where f: "fuel = Suc fuel'" and d: "depthWithin fuel' remote sub (itemPath path item)"
          by blast
        with "2.IH"(2) [OF nofile dir Listing f] obtain c g
          where t: "generateContent fuel' decode remote sub (itemPath path item) = Some (c, g)"
          by blast
        from "2.IH"(3) [OF nofile dir Listing f t refl] rest obtain c' g'
          where "generateContent fuel decode remote items path = Some (c', g')" by blast
        with nofile dir Listing f t show ?thesis by simp
      next
        case (FileObject c)
        from "2.IH"(4) [OF nofile dir FileObject] rest obtain c' g'
          where "generateContent fuel decode remote items path = Some (c', g')" by blast
        with nofile dir FileObject show ?thesis by simp
      next
        case (Failure m)
        from "2.IH"(5) [OF nofile dir Failure] rest obtain c' g'
          where "generateContent fuel decode remote items path = Some (c', g')" by blast
        with nofile dir Failure show ?thesis by simp
      qed
    qed
  qed
qed






section \<open>The sort of the Tree Builder\<close>

















section \<open>Parsing a content blob\<close>

declare sections.simps [simp del]
declare whileLoop.simps [simp del]

lemma eq50_Cons: "eq50 = EQUALS # replicate 49 EQUALS"
  by (simp add: eq50_def numeral_eq_Suc)

lemma length_eq50 [simp]: "length eq50 = 50"
  by (simp add: eq50_def)

lemma NL_not_in_eq50 [simp]: "NL \<notin> set eq50"
  by (simp add: eq50_def NL_def EQUALS_def)

lemma js_File_colon: "js ''File: '' = js ''File:'' @ [0x20]"
  by (simp add: js_def)

lemma length_js [simp]: "length (js s) = length s"
  by (simp add: js_def)

lemma NL_not_in_File [simp]: "NL \<notin> set (js ''File:'')"
  by (simp add: js_def NL_def)

lemma nextHeader_Cons: "nextHeader = EQUALS # replicate 49 EQUALS @ [NL] @ js ''File:''"
  by (simp add: nextHeader_def eq50_Cons)

lemma NL_not_EQUALS [simp]: "NL \<noteq> EQUALS" "EQUALS \<noteq> NL"
  by (simp_all add: NL_def EQUALS_def)

lemma not_prefix_nextHeader_NL [simp]: "\<not> prefix nextHeader (NL # t)"
  by (simp add: nextHeader_Cons)

lemma not_prefix_nextHeader_Nil [simp]: "\<not> prefix nextHeader []"
  by (simp add: nextHeader_Cons)

lemma header_at_prefix:
  assumes "header_at s = Some m"
  shows "prefix nextHeader s"
proof -
  from assms have "prefix (eq50 @ NL # js ''File: '') s"
    unfolding header_at_def by (simp split: if_splits)
  then have "prefix (nextHeader @ [0x20]) s"
    by (simp add: nextHeader_def js_File_colon)
  then show ?thesis by (rule append_prefixD)
qed

lemma clearOf_iff:
  "clearOf u t \<longleftrightarrow> (\<forall>w. suffix w u \<and> w \<noteq> [] \<longrightarrow> \<not> prefix nextHeader (w @ t))"
  by (auto simp: clearOf_def list_all_iff)

lemma clearOf_Nil [simp]: "clearOf [] t"
  by (simp add: clearOf_iff)

lemma clearOf_Cons:
  "clearOf (c # u) t \<longleftrightarrow> \<not> prefix nextHeader (c # u @ t) \<and> clearOf u t"
  by (auto simp: clearOf_iff suffix_Cons)

lemma indexOf_clear:
  "clearOf u t \<Longrightarrow> indexOf nextHeader (u @ t) = map_option (\<lambda>n. n + length u) (indexOf nextHeader t)"
proof (induction u)
  case Nil
  show ?case by (simp add: option.map_ident)
next
  case (Cons c u)
  then show ?case
    by (simp add: clearOf_Cons option.map_comp comp_def)
qed

lemma exec_clear:
  "clearOf u t \<Longrightarrow>
     exec (u @ t) = map_option (\<lambda>(i, g1, len). (i + length u, g1, len)) (exec t)"
proof (induction u)
  case Nil
  show ?case by (cases "exec t") simp_all
next
  case (Cons c u)
  from Cons.prems have np: "\<not> prefix nextHeader (c # u @ t)" and cl: "clearOf u t"
    by (simp_all add: clearOf_Cons)
  from np have "header_at (c # u @ t) = None"
    using header_at_prefix [of "c # u @ t"] by (cases "header_at (c # u @ t)") auto
  with Cons.IH [OF cl] show ?case
    by (cases "exec t") (simp_all add: case_prod_unfold)
qed

lemma sections_clear:
  assumes "clearOf u t"
  shows "sections (u @ t) = sections t"
proof (cases "exec t")
  case None
  with exec_clear [OF assms] have "exec (u @ t) = None" by simp
  with None show ?thesis by (simp add: sections.simps [of "u @ t"] sections.simps [of t])
next
  case (Some m)
  obtain i g1 len where m: "m = (i, g1, len)" by (cases m)
  with Some exec_clear [OF assms] have "exec (u @ t) = Some (i + length u, g1, len)" by simp
  moreover have "drop (i + length u + len) (u @ t) = drop (i + len) t" by (simp add: add.commute)
  ultimately show ?thesis using Some m
    by (simp add: sections.simps [of "u @ t"] sections.simps [of t] del: sections.simps)
qed

lemma exec_here: "header_at s = Some (g1, len) \<Longrightarrow> exec s = Some (0, g1, len)"
  by (cases s) (simp_all add: header_at_def)

lemma prefix_nextHeader_blank:
  assumes "prefix nextHeader (x @ NL # NL # t)"
  shows "prefix nextHeader x"
proof -
  from assms consider "prefix nextHeader x"
    | us where "nextHeader = x @ us" "prefix us (NL # NL # t)"
    by (auto simp: prefix_append)
  then show ?thesis
  proof cases
    case 1
    then show ?thesis .
  next
    case 2
    show ?thesis
    proof (cases us)
      case Nil
      with 2 show ?thesis by simp
    next
      case (Cons c us')
      with 2 have c: "c = NL" and p: "prefix us' (NL # t)" by simp_all
      from p have us': "us' = [] \<or> (\<exists>v. us' = NL # v)" by (cases us') auto
      have "eq50 @ NL # js ''File:'' = x @ NL # us'"
        using 2(1) Cons c by (simp add: nextHeader_def)
      then have "js ''File:'' = us'"
        using append_Cons_eq_iff [of NL eq50 "js ''File:''" x us'] by simp
      with us' have False by (auto simp: js_def NL_def)
      then show ?thesis ..
    qed
  qed
qed

lemma clear_body:
  assumes "\<not> sublist nextHeader b"
  shows "clearOf (NL # b @ [NL, NL]) t"
  unfolding clearOf_iff
proof (intro allI impI, elim conjE)
  fix w
  assume w: "suffix w (NL # b @ [NL, NL])" and ne: "w \<noteq> []"
  from w consider "w = NL # b @ [NL, NL]" | "suffix w [NL, NL]"
    | w' where "w = w' @ [NL, NL]" "suffix w' b" "w' \<noteq> []"
    by (auto simp: suffix_Cons suffix_append)
  then show "\<not> prefix nextHeader (w @ t)"
  proof cases
    case 1
    then show ?thesis by simp
  next
    case 2
    with ne have "w = [NL, NL] \<or> w = [NL]" by (auto simp: suffix_Cons)
    then show ?thesis by auto
  next
    case 3
    show ?thesis
    proof
      assume "prefix nextHeader (w @ t)"
      with 3 have "prefix nextHeader (w' @ NL # NL # t)" by simp
      then have "prefix nextHeader w'" by (rule prefix_nextHeader_blank)
      with 3 have "sublist nextHeader b" by (auto simp: sublist_altdef')
      with assms show False ..
    qed
  qed
qed

lemma isWhiteSpace_NL [simp]: "isWhiteSpace NL"
  by (simp add: isWhiteSpace_def NL_def)

lemma trim_padded: "trim (NL # b @ [NL, NL]) = trim b"
proof (cases "\<forall>x\<in>set b. isWhiteSpace x")
  case True
  then have a: "dropWhile isWhiteSpace b = []"
    and b: "dropWhile isWhiteSpace (NL # b @ [NL, NL]) = []"
    by simp_all
  show ?thesis unfolding trim_def a b by simp
next
  case False
  then have "dropWhile isWhiteSpace (b @ [NL, NL]) = dropWhile isWhiteSpace b @ [NL, NL]"
    by (simp add: dropWhile_append)
  then show ?thesis by (simp add: trim_def)
qed

lemma header_at_fileHeader:
  assumes "p \<noteq> []" "NL \<notin> set p"
  shows "header_at (fileHeader p @ t) = Some (p, 57 + length p + 51)"
proof -
  have f: "fileHeader p @ t = (eq50 @ NL # js ''File: '') @ p @ NL # eq50 @ NL # t"
    by (simp add: fileHeader_def)
  have l: "length (eq50 @ NL # js ''File: '') = 57" by simp
  have d: "drop 57 (fileHeader p @ t) = p @ NL # eq50 @ NL # t"
    unfolding f using l by (metis append_eq_conv_conj)
  have tw: "takeWhile (\<lambda>c. c \<noteq> NL) (p @ NL # eq50 @ NL # t) = p"
    using assms(2) by (auto simp: takeWhile_append)
  have dw: "dropWhile (\<lambda>c. c \<noteq> NL) (p @ NL # eq50 @ NL # t) = NL # eq50 @ NL # t"
    using assms(2) by (auto simp: dropWhile_append3)
  have pre: "prefix (eq50 @ NL # js ''File: '') (fileHeader p @ t)"
    unfolding f by (rule prefixI) simp
  show ?thesis
    unfolding header_at_def Let_def d tw dw using pre assms(1) by simp
qed

lemma drop_fileHeader:
  "drop (57 + length p + 51) (fileHeader p @ t) = NL # t"
proof -
  have "fileHeader p @ t = (eq50 @ NL # js ''File: '' @ p @ NL # eq50) @ NL # t"
    by (simp add: fileHeader_def)
  moreover have "length (eq50 @ NL # js ''File: '' @ p @ NL # eq50) = 57 + length p + 51"
    by simp
  ultimately show ?thesis by (metis append_eq_conv_conj)
qed

text \<open>
  A section written by the Content Serializer, followed by the end of the blob
  or by the next header, is parsed as one section with the same name and body,
  both trimmed.
\<close>

lemma sections_section:
  assumes "p \<noteq> []" "NL \<notin> set p" "\<not> sublist nextHeader b"
    and "T = [] \<or> prefix nextHeader T"
  shows "sections (fileHeader p @ b @ [NL, NL] @ T) = (trim p, trim b) # sections T"
proof -
  let ?s = "fileHeader p @ b @ [NL, NL] @ T"
  let ?rest = "(NL # b @ [NL, NL]) @ T"
  have e: "exec ?s = Some (0, p, 57 + length p + 51)"
    using assms(1,2) by (intro exec_here header_at_fileHeader)
  have r: "drop (0 + (57 + length p + 51)) ?s = ?rest"
    using drop_fileHeader [of p "b @ [NL, NL] @ T"] by simp
  have cl: "clearOf (NL # b @ [NL, NL]) T" using assms(3) by (rule clear_body)
  have i: "indexOf nextHeader ?rest
      = map_option (\<lambda>n. n + length (NL # b @ [NL, NL])) (indexOf nextHeader T)"
    using cl by (rule indexOf_clear)
  have "(case indexOf nextHeader ?rest of Some n \<Rightarrow> n | None \<Rightarrow> length ?rest)
      = length (NL # b @ [NL, NL])"
  proof (cases T)
    case Nil
    then show ?thesis using i by simp
  next
    case (Cons c cs)
    with assms(4) have "indexOf nextHeader T = Some 0" by simp
    with i show ?thesis by simp
  qed
  then have t: "take (case indexOf nextHeader ?rest of Some n \<Rightarrow> n | None \<Rightarrow> length ?rest) ?rest
      = NL # b @ [NL, NL]"
    by (simp del: append.simps)
  have "sections ?s = (trim p, trim (NL # b @ [NL, NL])) # sections ?rest"
    by (subst sections.simps) (simp only: e r t option.simps prod.simps Let_def)
  then show ?thesis
    using sections_clear [OF cl] by (simp only: trim_padded)
qed

lemma prefix_nextHeader_fileHeader: "prefix nextHeader (fileHeader p @ t)"
proof -
  have "fileHeader p @ t = nextHeader @ (0x20 # p @ NL # eq50 @ NL # t)"
    by (simp add: fileHeader_def nextHeader_def js_File_colon)
  then show ?thesis by (simp only: prefixI)
qed

lemma sections_Nil [simp]: "sections [] = []"
  by (simp add: sections.simps)

lemma blobOf_start: "blobOf pbs = [] \<or> prefix nextHeader (blobOf pbs)"
proof (cases pbs)
  case Nil
  then show ?thesis by (simp add: blobOf_def)
next
  case (Cons pb rest)
  then have "blobOf pbs = fileHeader (fst pb) @ (snd pb @ [NL, NL] @ blobOf rest)"
    by (simp add: blobOf_def)
  then show ?thesis by (simp only: prefix_nextHeader_fileHeader simp_thms)
qed

lemma sections_blobOf:
  assumes "\<forall>pb \<in> set pbs. fst pb \<noteq> [] \<and> NL \<notin> set (fst pb) \<and> \<not> sublist nextHeader (snd pb)"
  shows "sections (blobOf pbs) = map (\<lambda>pb. (trim (fst pb), trim (snd pb))) pbs"
  using assms
proof (induction pbs)
  case Nil
  show ?case by (simp add: blobOf_def)
next
  case (Cons pb rest)
  have b: "blobOf (pb # rest) = fileHeader (fst pb) @ snd pb @ [NL, NL] @ blobOf rest"
    by (simp add: blobOf_def)
  have "sections (blobOf (pb # rest)) = (trim (fst pb), trim (snd pb)) # sections (blobOf rest)"
    unfolding b using Cons.prems blobOf_start [of rest] by (intro sections_section) simp_all
  with Cons show ?case by simp
qed

section \<open>The result object\<close>

lemma map_of_upsert: "map_of (upsert k v ps) = (map_of ps)(k \<mapsto> v)"
  by (induction ps) (auto simp: fun_eq_iff)

lemma keys_upsert: "fst ` set (upsert k v ps) = insert k (fst ` set ps)"
  by (induction ps) force+

lemma map_fst_upsert:
  "map fst (upsert k v ps) = (if k \<in> fst ` set ps then map fst ps else map fst ps @ [k])"
  by (induction ps) force+

lemma distinct_upsert: "distinct (map fst ps) \<Longrightarrow> distinct (map fst (upsert k v ps))"
  by (simp add: map_fst_upsert)

lemma values_upsert:
  "(k', v') \<in> set (upsert k v ps) \<Longrightarrow> (k', v') = (k, v) \<or> (k', v') \<in> set ps"
  by (induction ps) (auto split: if_splits)

lemma objSet_settable:
  "settable obj p \<Longrightarrow> objSet obj p v = obj\<lparr> props := upsert p v (props obj) \<rparr>"
  by (auto simp: settable_def objSet_def)

lemma protoNull_objSet: "protoNull obj \<Longrightarrow> protoNull (objSet obj k v)"
  by (simp add: objSet_def)

lemma keys_objSet: "fst ` set (props obj) \<subseteq> fst ` set (props (objSet obj k v))"
  by (auto simp: objSet_def keys_upsert)

lemma settable_objSet: "settable obj p \<Longrightarrow> settable (objSet obj k v) p"
  using keys_objSet [of obj k v] protoNull_objSet [of obj k v]
  by (auto simp: settable_def)

lemma settable_after_null: "settable (objSet obj p None) p"
  by (auto simp: settable_def objSet_def keys_upsert)

lemma distinct_objSet:
  "distinct (map fst (props obj)) \<Longrightarrow> distinct (map fst (props (objSet obj k v)))"
  by (simp add: objSet_def distinct_upsert)

lemma null_objSet:
  "\<forall>e \<in> set (props obj). snd e = None \<Longrightarrow> \<forall>e \<in> set (props (objSet obj k None)). snd e = None"
  by (auto simp: objSet_def dest: values_upsert)

lemma keys_objSet_sub: "fst ` set (props (objSet obj k v)) \<subseteq> insert k (fst ` set (props obj))"
  by (auto simp: objSet_def keys_upsert)

text \<open>The first loop: every requested path becomes a key with value \<open>null\<close>.\<close>

lemma init_mono:
  "settable obj p \<Longrightarrow> settable (foldl (\<lambda>r path. objSet r path None) obj ps) p"
  by (induction ps arbitrary: obj) (simp_all add: settable_objSet)

lemma init_settable:
  "p \<in> set ps \<Longrightarrow> settable (foldl (\<lambda>r path. objSet r path None) obj ps) p"
proof (induction ps arbitrary: obj)
  case Nil
  then show ?case by simp
next
  case (Cons q ps)
  show ?case
  proof (cases "p = q")
    case True
    then show ?thesis using init_mono [OF settable_after_null [of obj q], of ps] by simp
  next
    case False
    with Cons show ?thesis by simp
  qed
qed

lemma init_distinct:
  "distinct (map fst (props obj))
    \<Longrightarrow> distinct (map fst (props (foldl (\<lambda>r path. objSet r path None) obj ps)))"
  by (induction ps arbitrary: obj) (simp_all add: distinct_objSet)

lemma init_null:
  "\<forall>e \<in> set (props obj). snd e = None
    \<Longrightarrow> \<forall>e \<in> set (props (foldl (\<lambda>r path. objSet r path None) obj ps)). snd e = None"
proof (induction ps arbitrary: obj)
  case Nil
  then show ?case by simp
next
  case (Cons q ps)
  from Cons.prems have "\<forall>e \<in> set (props (objSet obj q None)). snd e = None"
    by (rule null_objSet)
  then show ?case using Cons.IH by simp
qed

lemma init_keys:
  "fst ` set (props (foldl (\<lambda>r path. objSet r path None) obj ps))
    \<subseteq> fst ` set (props obj) \<union> set ps"
proof (induction ps arbitrary: obj)
  case Nil
  show ?case by simp
next
  case (Cons q ps)
  show ?case using Cons.IH [of "objSet obj q None"] keys_objSet_sub [of obj q None] by auto
qed

text \<open>The inner loop, for one parsed section.\<close>

lemma forPaths_settable: "settable r p \<Longrightarrow> settable (forPaths f c qs r) p"
  by (induction qs arbitrary: r) (simp_all add: settable_objSet)

lemma forPaths_distinct:
  "distinct (map fst (props r)) \<Longrightarrow> distinct (map fst (props (forPaths f c qs r)))"
  by (induction qs arbitrary: r) (simp_all add: distinct_objSet)

lemma forPaths_lookup:
  "\<forall>p \<in> set qs. settable r p \<Longrightarrow>
     map_of (props (forPaths f c qs r)) k =
       (if k \<in> set qs \<and> pathMatches k f then Some (Some c) else map_of (props r) k)"
proof (induction qs arbitrary: r)
  case Nil
  show ?case by simp
next
  case (Cons q qs)
  let ?r = "if pathMatches q f then objSet r q (Some c) else r"
  have s: "\<forall>p \<in> set qs. settable ?r p"
    using Cons.prems by (simp add: settable_objSet)
  have "map_of (props ?r) k = (if k = q \<and> pathMatches k f then Some (Some c) else map_of (props r) k)"
    using Cons.prems by (auto simp: objSet_settable map_of_upsert)
  with Cons.IH [OF s] show ?case by auto
qed

lemma forPaths_keys:
  "\<forall>p \<in> set qs. settable r p \<Longrightarrow> set qs \<subseteq> fst ` set (props r)
    \<Longrightarrow> map fst (props (forPaths f c qs r)) = map fst (props r)"
proof (induction qs arbitrary: r)
  case Nil
  show ?case by simp
next
  case (Cons q qs)
  let ?r = "if pathMatches q f then objSet r q (Some c) else r"
  have k: "map fst (props ?r) = map fst (props r)"
    using Cons.prems by (simp add: objSet_settable map_fst_upsert)
  then have "fst ` set (props ?r) = fst ` set (props r)"
    by (metis list.set_map)
  with Cons.prems have "set qs \<subseteq> fst ` set (props ?r)" by simp
  moreover have "\<forall>p \<in> set qs. settable ?r p"
    using Cons.prems by (simp add: settable_objSet)
  ultimately have "map fst (props (forPaths f c qs ?r)) = map fst (props ?r)"
    by (intro Cons.IH)
  with k show ?case by simp
qed

text \<open>The \<open>while\<close> loop is the inner loop run for each parsed section in turn.\<close>

lemma whileLoop_sections:
  "whileLoop s ps r = foldl (\<lambda>r sec. forPaths (fst sec) (snd sec) ps r) r (sections s)"
proof (induction s ps r rule: whileLoop.induct)
  case (1 s ps r)
  show ?case
  proof (cases "exec s")
    case None
    then show ?thesis by (simp add: sections.simps [of s] whileLoop.simps [of s])
  next
    case (Some m)
    obtain i g1 len where m: "m = (i, g1, len)" by (cases m)
    show ?thesis
      using Some m "1.IH" [OF Some [unfolded m] refl refl refl refl refl]
      by (subst whileLoop.simps, subst sections.simps) (simp add: Let_def)
  qed
qed

lemma lastMatch_alt:
  "lastMatch secs k =
     (if filter (\<lambda>sec. pathMatches k (fst sec)) secs = [] then None
      else Some (snd (last (filter (\<lambda>sec. pathMatches k (fst sec)) secs))))"
  by (cases "filter (\<lambda>sec. pathMatches k (fst sec)) secs") (simp_all add: lastMatch_def)

lemma lastMatch_snoc:
  "lastMatch (secs @ [sec]) k =
     (if pathMatches k (fst sec) then Some (snd sec) else lastMatch secs k)"
  by (simp add: lastMatch_alt)

lemma loop_settable:
  "settable r p \<Longrightarrow> settable (foldl (\<lambda>r sec. forPaths (fst sec) (snd sec) ps r) r secs) p"
  by (induction secs arbitrary: r) (simp_all add: forPaths_settable)

lemma loop_distinct:
  "distinct (map fst (props r))
    \<Longrightarrow> distinct (map fst (props (foldl (\<lambda>r sec. forPaths (fst sec) (snd sec) ps r) r secs)))"
  by (induction secs arbitrary: r) (simp_all add: forPaths_distinct)

lemma loop_lookup:
  assumes "\<forall>p \<in> set ps. settable r p"
  shows "map_of (props (foldl (\<lambda>r sec. forPaths (fst sec) (snd sec) ps r) r secs)) k =
     (if k \<in> set ps
      then (case lastMatch secs k of Some c \<Rightarrow> Some (Some c) | None \<Rightarrow> map_of (props r) k)
      else map_of (props r) k)"
proof (induction secs rule: rev_induct)
  case Nil
  show ?case by (simp add: lastMatch_def)
next
  case (snoc sec secs)
  let ?r = "foldl (\<lambda>r sec. forPaths (fst sec) (snd sec) ps r) r secs"
  have "\<forall>p \<in> set ps. settable ?r p" using assms by (simp add: loop_settable)
  then have "map_of (props (forPaths (fst sec) (snd sec) ps ?r)) k =
       (if k \<in> set ps \<and> pathMatches k (fst sec) then Some (Some (snd sec))
        else map_of (props ?r) k)"
    by (rule forPaths_lookup)
  with snoc show ?case by (simp add: lastMatch_snoc)
qed

lemma loop_keys:
  assumes "\<forall>p \<in> set ps. settable r p" "set ps \<subseteq> fst ` set (props r)"
  shows "map fst (props (foldl (\<lambda>r sec. forPaths (fst sec) (snd sec) ps r) r secs))
    = map fst (props r)"
proof (induction secs rule: rev_induct)
  case Nil
  show ?case by simp
next
  case (snoc sec secs)
  let ?r = "foldl (\<lambda>r sec. forPaths (fst sec) (snd sec) ps r) r secs"
  have "\<forall>p \<in> set ps. settable ?r p" using assms by (simp add: loop_settable)
  moreover have "set ps \<subseteq> fst ` set (props ?r)"
    using assms(2) snoc by (metis list.set_map)
  ultimately have "map fst (props (forPaths (fst sec) (snd sec) ps ?r)) = map fst (props ?r)"
    by (rule forPaths_keys)
  with snoc show ?case by simp
qed

text \<open>What the result object holds when the loops have ended.\<close>

lemma resultObject_distinct: "distinct (map fst (props (resultObject s ps)))"
  unfolding resultObject_def whileLoop_sections
  by (intro loop_distinct init_distinct) (simp add: emptyObject_def)

lemma resultObject_entry:
  "(k, Some c) \<in> set (props (resultObject s ps))
    \<longleftrightarrow> k \<in> set ps \<and> lastMatch (sections s) k = Some c"
proof -
  let ?r0 = "foldl (\<lambda>r path. objSet r path None) emptyObject ps"
  have n: "\<forall>e \<in> set (props ?r0). snd e = None"
    by (rule init_null) (simp add: emptyObject_def)
  have n': "map_of (props ?r0) k \<noteq> Some (Some c)"
  proof
    assume "map_of (props ?r0) k = Some (Some c)"
    then have "(k, Some c) \<in> set (props ?r0)" by (rule map_of_SomeD)
    with n show False by auto
  qed
  have s: "\<forall>p \<in> set ps. settable ?r0 p" by (simp add: init_settable)
  have "(k, Some c) \<in> set (props (resultObject s ps))
      \<longleftrightarrow> map_of (props (resultObject s ps)) k = Some (Some c)"
    using resultObject_distinct [of s ps] by simp
  also have "\<dots> \<longleftrightarrow> k \<in> set ps \<and> lastMatch (sections s) k = Some c"
    unfolding resultObject_def whileLoop_sections loop_lookup [OF s]
    using n' by (auto split: option.splits)
  finally show ?thesis .
qed

section \<open>The extracted text\<close>

lemma set_nonNull: "set (nonNull es) = {(p, c). (p, Some c) \<in> set es}"
  by (induction es rule: nonNull.induct) auto

lemma map_fst_nonNull: "map fst (nonNull es) = map fst (filter (\<lambda>e. snd e \<noteq> None) es)"
  by (induction es rule: nonNull.induct) auto

lemma distinct_nonNull: "distinct (map fst es) \<Longrightarrow> distinct (map fst (nonNull es))"
  by (simp add: map_fst_nonNull distinct_map_filter)

lemma mset_objEntries: "mset (objEntries obj) = mset (props obj)"
  by (simp add: objEntries_def ownEntries_def)

lemma set_objEntries: "set (objEntries obj) = set (props obj)"
  using mset_objEntries [of obj] by (metis set_mset_mset)

lemma distinct_objEntries:
  "distinct (map fst (props obj)) \<Longrightarrow> distinct (map fst (objEntries obj))"
  using mset_objEntries [of obj] by (metis distinct_map mset_eq_imp_distinct_iff mset_map)

lemma objEntries_plain:
  "\<forall>k \<in> fst ` set (props obj). \<not> isArrayIndex k \<Longrightarrow> objEntries obj = props obj"
proof -
  assume a: "\<forall>k \<in> fst ` set (props obj). \<not> isArrayIndex k"
  then have "filter (\<lambda>e. isArrayIndex (fst e)) (props obj) = []"
    by (auto simp: filter_empty_conv)
  moreover from a have "filter (\<lambda>e. \<not> isArrayIndex (fst e)) (props obj) = props obj"
    by (auto simp: filter_id_conv)
  ultimately show ?thesis by (simp add: objEntries_def ownEntries_def)
qed

lemma wrapFile_not_Nil [simp]: "wrapFile p c \<noteq> []"
  by (simp add: wrapFile_def eq50_Cons)

lemma joinBlank_Cons:
  "joinBlank (x # xs) = (if xs = [] then x else x @ [NL, NL] @ joinBlank xs)"
  by (cases xs) simp_all

lemma joinBlank_eq_Nil: "\<forall>x \<in> set xs. x \<noteq> [] \<Longrightarrow> joinBlank xs = [] \<longleftrightarrow> xs = []"
  by (cases xs) (auto simp: joinBlank_Cons)

lemma concatLoop_acc:
  "concatLoop es acc =
     (if nonNull es = [] then acc
      else if acc = [] then joinBlank (map (\<lambda>(p, c). wrapFile p c) (nonNull es))
      else acc @ [NL, NL] @ joinBlank (map (\<lambda>(p, c). wrapFile p c) (nonNull es)))"
proof (induction es arbitrary: acc rule: nonNull.induct)
  case 1
  show ?case by simp
next
  case (2 p es)
  then show ?case by simp
next
  case (3 p c es)
  have w: "eq50 @ [NL] @ js ''File: '' @ p @ [NL] @ eq50 @ [NL] @ c = wrapFile p c"
    by (simp add: wrapFile_def)
  show ?case
    by (simp only: concatLoop.simps option.simps nonNull.simps w "3.IH")
      (simp add: joinBlank_Cons)
qed

lemma concatLoop_join:
  "concatLoop es [] = joinBlank (map (\<lambda>(p, c). wrapFile p c) (nonNull es))"
  by (simp add: concatLoop_acc)

text \<open>The extraction, for a blob that is not empty.\<close>

lemma getFilesContent_found:
  assumes "content g = Some s" "s \<noteq> []"
  shows "getFilesContent g ps =
     (if nonNull (objEntries (resultObject s ps)) = []
      then js ''None of the requested files were found''
      else joinBlank (map (\<lambda>(p, c). wrapFile p c) (nonNull (objEntries (resultObject s ps)))))"
proof -
  let ?found = "nonNull (objEntries (resultObject s ps))"
  have "\<forall>x \<in> set (map (\<lambda>(p, c). wrapFile p c) ?found). x \<noteq> []"
    by (auto simp: case_prod_unfold)
  then have "joinBlank (map (\<lambda>(p, c). wrapFile p c) ?found) = [] \<longleftrightarrow> ?found = []"
    using joinBlank_eq_Nil [of "map (\<lambda>(p, c). wrapFile p c) ?found"] by simp
  then show ?thesis
    using assms
    by (simp add: getFilesContent_def truthy_def Let_def concatLoop_join resultObject_def)
qed

lemma found_entry:
  "(p, c) \<in> set (nonNull (objEntries (resultObject s ps)))
    \<longleftrightarrow> p \<in> set ps \<and> lastMatch (sections s) p = Some c"
  by (simp add: set_nonNull set_objEntries resultObject_entry)

lemma found_distinct: "distinct (map fst (nonNull (objEntries (resultObject s ps))))"
  by (intro distinct_nonNull distinct_objEntries resultObject_distinct)

lemma lastMatch_None:
  "lastMatch secs p = None \<longleftrightarrow> (\<forall>sec \<in> set secs. \<not> pathMatches p (fst sec))"
  by (auto simp: lastMatch_alt filter_empty_conv)

section \<open>The order of the extracted sections\<close>

lemma firstOccurrences_snoc:
  "firstOccurrences (ps @ [x]) =
     (if x \<in> set ps then firstOccurrences ps else firstOccurrences ps @ [x])"
  by (simp add: firstOccurrences_def)

lemma set_firstOccurrences [simp]: "set (firstOccurrences ps) = set ps"
  by (simp add: firstOccurrences_def)

lemma distinct_firstOccurrences [simp]: "distinct (firstOccurrences ps)"
  by (simp add: firstOccurrences_def)


lemma upsert_None_map:
  "upsert x None (map (\<lambda>p. (p, None)) ks)
    = map (\<lambda>p. (p, None)) (if x \<in> set ks then ks else ks @ [x])"
  by (induction ks) auto

lemma init_props:
  "js ''__proto__'' \<notin> set ps \<Longrightarrow>
     props (foldl (\<lambda>r path. objSet r path None) emptyObject ps)
       = map (\<lambda>p. (p, None)) (firstOccurrences ps)"
proof (induction ps rule: rev_induct)
  case Nil
  show ?case by (simp add: emptyObject_def firstOccurrences_def)
next
  case (snoc x ps)
  let ?r = "foldl (\<lambda>r path. objSet r path None) emptyObject ps"
  from snoc.prems have x: "x \<noteq> js ''__proto__''" and ps: "js ''__proto__'' \<notin> set ps"
    by auto
  from x have "settable ?r x" by (simp add: settable_def)
  then have "props (objSet ?r x None) = upsert x None (props ?r)"
    by (simp add: objSet_settable)
  also have "\<dots> = upsert x None (map (\<lambda>p. (p, None)) (firstOccurrences ps))"
    using snoc.IH [OF ps] by simp
  also have "\<dots> = map (\<lambda>p. (p, None)) (firstOccurrences (ps @ [x]))"
    by (simp only: upsert_None_map firstOccurrences_snoc set_firstOccurrences)
  finally show ?case by simp
qed

lemma assoc_list_by_keys:
  "distinct (map fst xs) \<Longrightarrow> map (\<lambda>k. (k, the (map_of xs k))) (map fst xs) = xs"
proof (induction xs)
  case Nil
  show ?case by simp
next
  case (Cons e xs)
  obtain a b where e: "e = (a, b)" by (cases e)
  from Cons.prems e have a: "a \<notin> fst ` set xs" and d: "distinct (map fst xs)" by auto
  have "map (\<lambda>k. (k, the (map_of ((a, b) # xs) k))) (map fst xs)
      = map (\<lambda>k. (k, the (map_of xs k))) (map fst xs)"
    using a by (intro map_cong) auto
  with Cons.IH [OF d] show ?case by (simp add: e)
qed

lemma resultObject_props:
  assumes "js ''__proto__'' \<notin> set ps"
  shows "props (resultObject s ps) = map (\<lambda>p. (p, lastMatch (sections s) p)) (firstOccurrences ps)"
proof -
  let ?r0 = "foldl (\<lambda>r path. objSet r path None) emptyObject ps"
  let ?R = "resultObject s ps"
  have p0: "props ?r0 = map (\<lambda>p. (p, None)) (firstOccurrences ps)"
    using assms by (rule init_props)
  have s: "\<forall>p \<in> set ps. settable ?r0 p" by (simp add: init_settable)
  have sub: "set ps \<subseteq> fst ` set (props ?r0)" by (simp add: p0 image_image)
  have keys: "map fst (props ?R) = firstOccurrences ps"
    unfolding resultObject_def whileLoop_sections loop_keys [OF s sub]
    by (simp add: p0 comp_def)
  have val: "the (map_of (props ?R) k) = lastMatch (sections s) k" if "k \<in> set ps" for k
  proof -
    have "map_of (props ?r0) k = Some None"
      using that by (simp add: p0 map_of_map_restrict restrict_map_def)
    then show ?thesis
      unfolding resultObject_def whileLoop_sections loop_lookup [OF s]
      using that by (simp split: option.splits)
  qed
  have "props ?R = map (\<lambda>k. (k, the (map_of (props ?R) k))) (map fst (props ?R))"
    using assoc_list_by_keys [OF resultObject_distinct [of s ps]] by simp
  also have "\<dots> = map (\<lambda>k. (k, lastMatch (sections s) k)) (firstOccurrences ps)"
    unfolding keys by (intro map_cong) (simp_all add: val)
  finally show ?thesis .
qed

lemma getFilesContent_extracted:
  assumes "content g = Some s" "s \<noteq> []" "js ''__proto__'' \<notin> set ps"
  shows "getFilesContent g ps =
     (if extracted (sections s) ps = [] then js ''None of the requested files were found''
      else joinBlank (map (\<lambda>(p, c). wrapFile p c) (extracted (sections s) ps)))"
  using getFilesContent_found [OF assms(1,2), of ps]
  by (simp only: extracted_def objEntries_def resultObject_props [OF assms(3)])

lemma ownEntries_plain: "\<forall>e \<in> set es. \<not> isArrayIndex (fst e) \<Longrightarrow> ownEntries es = es"
proof -
  assume a: "\<forall>e \<in> set es. \<not> isArrayIndex (fst e)"
  then have "filter (\<lambda>e. isArrayIndex (fst e)) es = []"
    by (auto simp: filter_empty_conv)
  moreover from a have "filter (\<lambda>e. \<not> isArrayIndex (fst e)) es = es"
    by (auto simp: filter_id_conv)
  ultimately show ?thesis by (simp add: ownEntries_def)
qed

lemma nonNull_map:
  "nonNull (map (\<lambda>p. (p, f p)) ks)
    = concat (map (\<lambda>p. case f p of None \<Rightarrow> [] | Some c \<Rightarrow> [(p, c)]) ks)"
  by (induction ks) (auto split: option.splits)

section \<open>Extraction from the example blobs\<close>

lemma isArrayIndex_code [code]:
  "isArrayIndex s \<longleftrightarrow>
     s \<noteq> [] \<and> list_all isDigit s \<and> (s = [0x30] \<or> hd s \<noteq> 0x30) \<and>
     int (indexValue s) < 4294967295"
  by (simp add: isArrayIndex_def)

lemma sections_plain: "plainSections pbs \<Longrightarrow> sections (blobOf pbs) = pbs"
proof -
  assume a: "plainSections pbs"
  then have "sections (blobOf pbs) = map (\<lambda>pb. (trim (fst pb), trim (snd pb))) pbs"
    by (intro sections_blobOf) (simp add: plainSections_def list_all_iff)
  also have "\<dots> = map (\<lambda>pb. pb) pbs"
    using a by (intro map_cong) (auto simp: plainSections_def list_all_iff)
  finally show ?thesis by simp
qed

lemma blobOf_not_Nil: "blobOf (pb # pbs) \<noteq> []"
  by (simp add: blobOf_def fileHeader_def eq50_Cons)

lemma content_ingesterWith: "content (ingesterWith blob) = Some blob"
  by (simp add: ingesterWith_def)

lemma getFilesContent_blobOf:
  assumes "plainSections (pb # pbs)" "js ''__proto__'' \<notin> set ps"
  shows "getFilesContent (ingesterWith (blobOf (pb # pbs))) ps =
     (if extracted (pb # pbs) ps = [] then js ''None of the requested files were found''
      else joinBlank (map (\<lambda>(p, c). wrapFile p c) (extracted (pb # pbs) ps)))"
  using getFilesContent_extracted [OF content_ingesterWith blobOf_not_Nil assms(2), of pb pbs]
  by (simp only: sections_plain [OF assms(1)])

lemma scenario_plain:
  "plainSections [(js ''src/index.js'', js ''console.log(1)''), (js ''README.md'', js ''# Title'')]"
  by code_simp

lemma docs_plain: "plainSections [(js ''docs/README.md'', js ''hello'')]"
  by code_simp

lemma numbered_plain: "plainSections [(js ''b'', js ''bee''), (js ''1'', js ''one'')]"
  by code_simp

lemma scenario_sections:
  "sections scenarioBlob =
     [(js ''src/index.js'', js ''console.log(1)''), (js ''README.md'', js ''# Title'')]"
  unfolding scenarioBlob_def using scenario_plain by (rule sections_plain)

lemma scenario_content: "content (ingesterWith scenarioBlob) = Some scenarioBlob"
  by (rule content_ingesterWith)

lemma scenario_not_Nil: "scenarioBlob \<noteq> []"
  by (simp add: scenarioBlob_def blobOf_not_Nil)

section \<open>Extraction: misses and the sentinel\<close>

lemma sentinel_not_Nil: "js ''None of the requested files were found'' \<noteq> []"
  by (simp add: js_def)

text \<open>
  Claim C8, as the code has it. For every content blob that is not empty and
  every list of requested paths, the result is never the empty string. If no
  requested path matches a parsed section, it is the sentinel
  \<open>None of the requested files were found\<close>. If some do, it is the wrapped
  bodies of exactly the matching paths, one for each, joined by blank lines: a
  path that matches nothing is left out, and nothing is raised.
\<close>

theorem C8_sentinel_on_total_miss:
  assumes "content g = Some s" and "s \<noteq> []"
  shows "getFilesContent g ps \<noteq> [] \<and>
    ((\<forall>p \<in> set ps. \<forall>sec \<in> set (sections s). \<not> pathMatches p (fst sec)) \<longrightarrow>
       getFilesContent g ps = js ''None of the requested files were found'') \<and>
    ((\<exists>p \<in> set ps. \<exists>sec \<in> set (sections s). pathMatches p (fst sec)) \<longrightarrow>
       (\<exists>found. getFilesContent g ps = joinBlank (map (\<lambda>(p, c). wrapFile p c) found) \<and>
          distinct (map fst found) \<and>
          set found = {(p, c). p \<in> set ps \<and> lastMatch (sections s) p = Some c}))"
proof -
  let ?found = "nonNull (objEntries (resultObject s ps))"
  have set: "set ?found = {(p, c). p \<in> set ps \<and> lastMatch (sections s) p = Some c}"
    using found_entry [of _ _ s ps] by auto
  have g: "getFilesContent g ps =
     (if ?found = [] then js ''None of the requested files were found''
      else joinBlank (map (\<lambda>(p, c). wrapFile p c) ?found))"
    using assms by (rule getFilesContent_found)
  have ne: "\<forall>x \<in> set (map (\<lambda>(p, c). wrapFile p c) ?found). x \<noteq> []"
    by (auto simp: case_prod_unfold)
  have 1: "getFilesContent g ps \<noteq> []"
    using g joinBlank_eq_Nil [OF ne] sentinel_not_Nil by (cases "?found = []") simp_all
  have 2: "getFilesContent g ps = js ''None of the requested files were found''"
    if "\<forall>p \<in> set ps. \<forall>sec \<in> set (sections s). \<not> pathMatches p (fst sec)"
  proof -
    from that have "\<forall>p \<in> set ps. lastMatch (sections s) p = None"
      by (simp add: lastMatch_None)
    with set have "set ?found = {}" by auto
    then show ?thesis using g by simp
  qed
  have 3: "\<exists>found. getFilesContent g ps = joinBlank (map (\<lambda>(p, c). wrapFile p c) found) \<and>
          distinct (map fst found) \<and>
          set found = {(p, c). p \<in> set ps \<and> lastMatch (sections s) p = Some c}"
    if "\<exists>p \<in> set ps. \<exists>sec \<in> set (sections s). pathMatches p (fst sec)"
  proof -
    from that obtain p where p: "p \<in> set ps" and "lastMatch (sections s) p \<noteq> None"
      by (auto simp: lastMatch_None)
    then obtain c where "lastMatch (sections s) p = Some c" by auto
    with p set have "(p, c) \<in> set ?found" by simp
    then have "?found \<noteq> []" by auto
    with g have "getFilesContent g ps = joinBlank (map (\<lambda>(p, c). wrapFile p c) ?found)"
      by simp
    with set found_distinct [of s ps] show ?thesis by blast
  qed
  from 1 2 3 show ?thesis by blast
qed

lemma license_no_match:
  "\<not> pathMatches (js ''LICENSE'') (js ''src/index.js'')"
  "\<not> pathMatches (js ''LICENSE'') (js ''README.md'')"
  by code_simp+

theorem C8_sentinel_on_total_miss_witness:
  "getFilesContent (ingesterWith scenarioBlob) [js ''LICENSE''] \<noteq> [] \<and>
   getFilesContent (ingesterWith scenarioBlob) [js ''LICENSE'']
     = js ''None of the requested files were found''"
  using C8_sentinel_on_total_miss [OF scenario_content scenario_not_Nil, of "[js ''LICENSE'']"]
    license_no_match sentinel_not_Nil
  by (simp add: scenario_sections)

text \<open>
  The claim as written covers every content blob. For the empty blob (a
  repository with no file to serialize) the guard at the head of
  \<open>_getFilesContent\<close> answers before any path is looked up.
\<close>

theorem C8_empty_blob_counterexample:
  "getFilesContent (ingesterWith []) [js ''README.md''] = js ''Content not available'' \<and>
   js ''Content not available'' \<noteq> js ''None of the requested files were found''"
proof -
  have "getFilesContent (ingesterWith []) [js ''README.md''] = js ''Content not available''"
    by (simp add: getFilesContent_def ingesterWith_def truthy_def)
  moreover have "js ''Content not available'' \<noteq> js ''None of the requested files were found''"
    by (simp add: js_def)
  ultimately show ?thesis ..
qed

section \<open>Extraction: which paths match\<close>

text \<open>
  Claim C2, as the code has it. For every content blob that is not empty and
  every requested path, the path contributes a section to the result exactly
  when it is among the requested paths and, for some parsed section, it equals
  the section's recorded name, or its final segment equals the recorded name,
  or it ends with \<open>/\<close> followed by the recorded name. The result is the sentinel
  when no path contributes, and the contributions joined by blank lines
  otherwise: a path matching no section contributes nothing.
\<close>

theorem C2_path_matching:
  assumes "content g = Some s" and "s \<noteq> []"
  shows "((\<exists>c. (p, c) \<in> set (nonNull (objEntries (resultObject s ps)))) \<longleftrightarrow>
           p \<in> set ps \<and>
           (\<exists>sec \<in> set (sections s).
              p = fst sec \<or> lastSegment p = fst sec \<or> suffix (SLASH # fst sec) p)) \<and>
         getFilesContent g ps =
           (if nonNull (objEntries (resultObject s ps)) = []
            then js ''None of the requested files were found''
            else joinBlank (map (\<lambda>(p, c). wrapFile p c)
                   (nonNull (objEntries (resultObject s ps)))))"
proof -
  have "(\<exists>c. lastMatch (sections s) p = Some c)
      \<longleftrightarrow> (\<exists>sec \<in> set (sections s). pathMatches p (fst sec))"
    using lastMatch_None [of "sections s" p] by auto
  then have "(\<exists>c. (p, c) \<in> set (nonNull (objEntries (resultObject s ps)))) \<longleftrightarrow>
           p \<in> set ps \<and>
           (\<exists>sec \<in> set (sections s).
              p = fst sec \<or> lastSegment p = fst sec \<or> suffix (SLASH # fst sec) p)"
    by (simp add: found_entry pathMatches_def)
  then show ?thesis using getFilesContent_found [OF assms] by simp
qed

lemma docs_readme_matches: "lastSegment (js ''docs/README.md'') = js ''README.md''"
  by code_simp

theorem C2_path_matching_witness:
  "\<exists>c. (js ''docs/README.md'', c)
          \<in> set (nonNull (objEntries (resultObject scenarioBlob [js ''docs/README.md''])))"
  using C2_path_matching [OF scenario_content scenario_not_Nil,
      of "js ''docs/README.md''" "[js ''docs/README.md'']"]
    docs_readme_matches
  by (simp add: scenario_sections)

text \<open>
  The claim as written has the bare file name \<open>README.md\<close> match a section
  recorded as \<open>docs/README.md\<close>. It does not: the rule compares the final
  segment of the requested path, not of the recorded name. And a longer path
  matches by its ending, which is none of the three cases of the claim.
\<close>

theorem C2_bare_name_counterexample:
  "getFilesContent (ingesterWith docsBlob) [js ''README.md'']
     = js ''None of the requested files were found'' \<and>
   sections docsBlob = [(js ''docs/README.md'', js ''hello'')] \<and>
   getFilesContent (ingesterWith docsBlob) [js ''x/docs/README.md'']
     = wrapFile (js ''x/docs/README.md'') (js ''hello'') \<and>
   js ''x/docs/README.md'' \<noteq> js ''docs/README.md'' \<and>
   lastSegment (js ''x/docs/README.md'') \<noteq> js ''docs/README.md'' \<and>
   js ''docs/README.md'' \<noteq> SLASH # lastSegment (js ''x/docs/README.md'')"
proof -
  have e1: "extracted [(js ''docs/README.md'', js ''hello'')] [js ''README.md''] = []"
    by code_simp
  have e2: "extracted [(js ''docs/README.md'', js ''hello'')] [js ''x/docs/README.md'']
      = [(js ''x/docs/README.md'', js ''hello'')]"
    by code_simp
  have n1: "js ''__proto__'' \<notin> set [js ''README.md'']"
    and n2: "js ''__proto__'' \<notin> set [js ''x/docs/README.md'']"
    by code_simp+
  have "getFilesContent (ingesterWith docsBlob) [js ''README.md'']
     = js ''None of the requested files were found''"
    unfolding docsBlob_def getFilesContent_blobOf [OF docs_plain n1] e1 by simp
  moreover have "sections docsBlob = [(js ''docs/README.md'', js ''hello'')]"
    unfolding docsBlob_def using docs_plain by (rule sections_plain)
  moreover have "getFilesContent (ingesterWith docsBlob) [js ''x/docs/README.md'']
     = wrapFile (js ''x/docs/README.md'') (js ''hello'')"
    unfolding docsBlob_def getFilesContent_blobOf [OF docs_plain n2] e2 by simp
  moreover have "js ''x/docs/README.md'' \<noteq> js ''docs/README.md''"
    by code_simp
  moreover have "lastSegment (js ''x/docs/README.md'') \<noteq> js ''docs/README.md''"
    by code_simp
  moreover have "js ''docs/README.md'' \<noteq> SLASH # lastSegment (js ''x/docs/README.md'')"
    by code_simp
  ultimately show ?thesis by blast
qed

section \<open>Extraction: headers, repetitions and order\<close>

text \<open>
  Claim C10, as the code has it. Let the blob be not empty and let no requested
  path be the reserved key \<open>__proto__\<close>. The result is made of one section for
  each requested path that matches, under a header that names the path as
  requested, with the body of the last section it matches: a path requested
  twice gives one section, at its first place. The sections follow the order
  of \<open>Object.entries\<close> on the requested paths, which is the order of the
  request when no path is an array index.
\<close>

theorem C10_requested_paths_in_order:
  assumes "content g = Some s" and "s \<noteq> []" and "js ''__proto__'' \<notin> set ps"
  shows "getFilesContent g ps =
           (if extracted (sections s) ps = [] then js ''None of the requested files were found''
            else joinBlank (map (\<lambda>(p, c). wrapFile p c) (extracted (sections s) ps))) \<and>
         ((\<forall>p \<in> set ps. \<not> isArrayIndex p) \<longrightarrow>
            extracted (sections s) ps =
              concat (map (\<lambda>p. case lastMatch (sections s) p of None \<Rightarrow> [] | Some c \<Rightarrow> [(p, c)])
                        (firstOccurrences ps)))"
proof -
  have "extracted (sections s) ps =
      concat (map (\<lambda>p. case lastMatch (sections s) p of None \<Rightarrow> [] | Some c \<Rightarrow> [(p, c)])
                (firstOccurrences ps))"
    if "\<forall>p \<in> set ps. \<not> isArrayIndex p"
  proof -
    have "ownEntries (map (\<lambda>p. (p, lastMatch (sections s) p)) (firstOccurrences ps))
        = map (\<lambda>p. (p, lastMatch (sections s) p)) (firstOccurrences ps)"
      using that by (intro ownEntries_plain) auto
    then show ?thesis by (simp add: extracted_def nonNull_map)
  qed
  then show ?thesis using getFilesContent_extracted [OF assms] by blast
qed

theorem C10_requested_paths_in_order_witness:
  "getFilesContent (ingesterWith scenarioBlob)
       [js ''README.md'', js ''src/index.js'', js ''README.md'']
     = joinBlank [wrapFile (js ''README.md'') (js ''# Title''),
                  wrapFile (js ''src/index.js'') (js ''console.log(1)'')]"
proof -
  have n: "js ''__proto__'' \<notin> set [js ''README.md'', js ''src/index.js'', js ''README.md'']"
    by code_simp
  have e: "extracted
       [(js ''src/index.js'', js ''console.log(1)''), (js ''README.md'', js ''# Title'')]
       [js ''README.md'', js ''src/index.js'', js ''README.md'']
     = [(js ''README.md'', js ''# Title''), (js ''src/index.js'', js ''console.log(1)'')]"
    by code_simp
  from C10_requested_paths_in_order [OF scenario_content scenario_not_Nil n]
  show ?thesis by (simp add: scenario_sections e)
qed

text \<open>
  The claim as written puts the sections in the order of the request. A
  requested path that is an array index, such as a file named \<open>1\<close>, comes first
  in the result object, wherever it is in the request.
\<close>

theorem C10_index_key_counterexample:
  "getFilesContent (ingesterWith numberedBlob) [js ''b'', js ''1'']
     = wrapFile (js ''1'') (js ''one'') @ [NL, NL] @ wrapFile (js ''b'') (js ''bee'') \<and>
   sections numberedBlob = [(js ''b'', js ''bee''), (js ''1'', js ''one'')]"
proof -
  have n: "js ''__proto__'' \<notin> set [js ''b'', js ''1'']"
    by code_simp
  have e: "extracted [(js ''b'', js ''bee''), (js ''1'', js ''one'')] [js ''b'', js ''1'']
     = [(js ''1'', js ''one''), (js ''b'', js ''bee'')]"
    by code_simp
  have "getFilesContent (ingesterWith numberedBlob) [js ''b'', js ''1'']
     = wrapFile (js ''1'') (js ''one'') @ [NL, NL] @ wrapFile (js ''b'') (js ''bee'')"
    unfolding numberedBlob_def getFilesContent_blobOf [OF numbered_plain n] e by simp
  moreover have "sections numberedBlob = [(js ''b'', js ''bee''), (js ''1'', js ''one'')]"
    unfolding numberedBlob_def using numbered_plain by (rule sections_plain)
  ultimately show ?thesis ..
qed

section \<open>The two traversals as walks\<close>

lemma fileSection_code [code]:
  "fileSection decode remote item p =
     (if isBinaryFile (name item) \<or> int (size' item) > 1000000 then
        (fileHeader p @ js ''[Binary or large file: '' @ showNat (size' item) @ js '' bytes]''
           @ [NL, NL], [])
      else
        (case remote p of
           FileObject c \<Rightarrow> (fileHeader p @ decode c @ [NL, NL], [p])
         | Failure message \<Rightarrow>
             (fileHeader p @ js ''[Error loading file: '' @ message @ js '']'' @ [NL, NL], [p])
         | Listing l \<Rightarrow>
             (fileHeader p @ js ''[Error loading file: '' @ bufferTypeError @ js '']''
                @ [NL, NL], [p])))"
  by (simp add: fileSection_def)

lemma tree_of_walk:
  "treeLoop fuel lc remote items path =
     map_option (\<lambda>vs. concat (map treeLine vs)) (walk (sortedContents lc) fuel remote items path)"
proof (induction fuel lc remote items path rule: treeLoop.induct)
  case (1 fuel lc remote path)
  show ?case by simp
next
  case (2 fuel lc remote item items path)
  let ?restT = "treeLoop fuel lc remote items path"
  let ?restW = "walk (sortedContents lc) fuel remote items path"
  show ?case
  proof (cases "type item = js ''dir''")
    case False
    with "2.IH"(5) show ?thesis by (cases ?restT; cases ?restW) auto
  next
    case dir: True
    show ?thesis
    proof (cases "remote (itemPath path item)")
      case (FileObject c)
      with dir "2.IH"(3) show ?thesis by (cases ?restT; cases ?restW) auto
    next
      case (Failure m)
      with dir "2.IH"(4) show ?thesis by (cases ?restT; cases ?restW) auto
    next
      case (Listing sub)
      show ?thesis
      proof (cases fuel)
        case 0
        with dir Listing show ?thesis by simp
      next
        case (Suc fuel')
        let ?subT = "treeLoop fuel' lc remote (sortedContents lc sub) (itemPath path item)"
        let ?subW = "walk (sortedContents lc) fuel' remote (sortedContents lc sub)
                       (itemPath path item)"
        note a = "2.IH"(1) [OF dir Listing Suc]
        show ?thesis
        proof (cases ?subT)
          case None
          with a dir Listing Suc show ?thesis by (cases ?subW) auto
        next
          case (Some t)
          from "2.IH"(2) [OF dir Listing Suc Some] a dir Listing Suc Some
          show ?thesis by (cases ?subW; cases ?restT; cases ?restW) auto
        qed
      qed
    qed
  qed
qed

lemma content_of_walk:
  "map_option fst (generateContent fuel decode remote items path) =
     map_option (\<lambda>vs. concat (map (contentPiece decode remote) vs))
       (walk (\<lambda>l. l) fuel remote items path)"
proof (induction fuel decode remote items path rule: generateContent.induct)
  case (1 fuel decode remote path)
  show ?case by simp
next
  case (2 fuel decode remote item items path)
  let ?restG = "generateContent fuel decode remote items path"
  let ?restW = "walk (\<lambda>l. l) fuel remote items path"
  show ?case
  proof (cases "type item = js ''file''")
    case True
    with "2.IH"(1) show ?thesis by (cases ?restG; cases ?restW) auto
  next
    case nofile: False
    show ?thesis
    proof (cases "type item = js ''dir''")
      case False
      with nofile "2.IH"(6) show ?thesis by (cases ?restG; cases ?restW) auto
    next
      case dir: True
      show ?thesis
      proof (cases "remote (itemPath path item)")
        case (FileObject c)
        with nofile dir "2.IH"(4) show ?thesis by (cases ?restG; cases ?restW) auto
      next
        case (Failure m)
        with nofile dir "2.IH"(5) show ?thesis by (cases ?restG; cases ?restW) auto
      next
        case (Listing sub)
        show ?thesis
        proof (cases fuel)
          case 0
          with nofile dir Listing show ?thesis by simp
        next
          case (Suc fuel')
          let ?subG = "generateContent fuel' decode remote sub (itemPath path item)"
          let ?subW = "walk (\<lambda>l. l) fuel' remote sub (itemPath path item)"
          note a = "2.IH"(2) [OF nofile dir Listing Suc]
          show ?thesis
          proof (cases ?subG)
            case None
            with a nofile dir Listing Suc show ?thesis by (cases ?subW) auto
          next
            case (Some r)
            obtain c f where r: "r = (c, f)" by (cases r)
            from "2.IH"(3) [OF nofile dir Listing Suc Some [unfolded r] refl]
              a nofile dir Listing Suc Some r
            show ?thesis by (cases ?subW; cases ?restG; cases ?restW) auto
          qed
        qed
      qed
    qed
  qed
qed

lemma listingsSorted_append:
  "listingsSorted lc remote (xs @ ys) \<longleftrightarrow> listingsSorted lc remote xs \<and> listingsSorted lc remote ys"
  by (induction lc remote xs rule: listingsSorted.induct) auto

lemma walk_already_sorted:
  "walk ord fuel remote items path = Some vs \<Longrightarrow> ord = sortedContents lc \<Longrightarrow>
     listingsSorted lc remote vs \<Longrightarrow> walk (\<lambda>l. l) fuel remote items path = Some vs"
proof (induction ord fuel remote items path arbitrary: vs rule: walk.induct)
  case (1 ord fuel remote path)
  then show ?case by simp
next
  case (2 ord fuel remote item items path)
  let ?restW = "walk ord fuel remote items path"
  show ?case
  proof (cases "type item = js ''dir''")
    case False
    with "2.prems" "2.IH"(5) show ?thesis by (cases ?restW) auto
  next
    case dir: True
    show ?thesis
    proof (cases "remote (itemPath path item)")
      case (FileObject c)
      with dir "2.prems" "2.IH"(3) show ?thesis by (cases ?restW) auto
    next
      case (Failure m)
      with dir "2.prems" "2.IH"(4) show ?thesis by (cases ?restW) auto
    next
      case (Listing sub)
      show ?thesis
      proof (cases fuel)
        case 0
        with dir Listing "2.prems" show ?thesis by simp
      next
        case (Suc fuel')
        let ?subW = "walk ord fuel' remote (ord sub) (itemPath path item)"
        from "2.prems"(1) dir Listing Suc obtain below rest
          where b: "?subW = Some below" and r: "?restW = Some rest"
            and vs: "vs = Directory path item # below @ rest"
          by (cases ?subW; cases ?restW) auto
        from "2.prems"(3) vs Listing "2.prems"(2)
        have s: "ord sub = sub" and lb: "listingsSorted lc remote below"
          and lr: "listingsSorted lc remote rest"
          by (simp_all add: listingsSorted_append)
        have "walk (\<lambda>l. l) fuel' remote (ord sub) (itemPath path item) = Some below"
          using "2.IH"(1) [OF dir Listing Suc b "2.prems"(2) lb] .
        moreover have "walk (\<lambda>l. l) fuel remote items path = Some rest"
          using "2.IH"(2) [OF dir Listing Suc b r "2.prems"(2) lr] .
        ultimately show ?thesis using dir Listing Suc vs s by simp
      qed
    qed
  qed
qed

text \<open>
  Claim C3, as the code has it. For a repository nested within the fuel, the
  content is the sections of the files in the order of the walk that takes
  every listing as the remote repository gives it, and the tree is the lines of
  the walk that sorts every listing, directories first. The two walks are the
  same when every listing that is entered is already in the sorted order.
\<close>

theorem C3_traversal_orders:
  assumes "depthWithin fuel remote contents path"
  shows "\<exists>cv tv fetched.
     walk (\<lambda>l. l) fuel remote contents path = Some cv \<and>
     walk (sortedContents lc) fuel remote (sortedContents lc contents) path = Some tv \<and>
     generateContent fuel decode remote contents path
       = Some (concat (map (contentPiece decode remote) cv), fetched) \<and>
     generateTree fuel lc remote contents path = Some (concat (map treeLine tv)) \<and>
     (sortedContents lc contents = contents \<and> listingsSorted lc remote tv \<longrightarrow> cv = tv)"
proof -
  from assms obtain c fetched
    where g: "generateContent fuel decode remote contents path = Some (c, fetched)"
    using generateContent_completes [where decode = decode] by blast
  with content_of_walk [of fuel decode remote contents path] obtain cv
    where cv: "walk (\<lambda>l. l) fuel remote contents path = Some cv"
      and c: "c = concat (map (contentPiece decode remote) cv)"
    by (cases "walk (\<lambda>l. l) fuel remote contents path") auto
  from assms have "depthWithin fuel remote (sortedContents lc contents) path"
    by (simp add: depthWithin_sorted)
  then obtain t where t: "treeLoop fuel lc remote (sortedContents lc contents) path = Some t"
    using treeLoop_completes [where lc = lc] by blast
  with tree_of_walk [of fuel lc remote "sortedContents lc contents" path] obtain tv
    where tv: "walk (sortedContents lc) fuel remote (sortedContents lc contents) path = Some tv"
      and t': "t = concat (map treeLine tv)"
    by (cases "walk (sortedContents lc) fuel remote (sortedContents lc contents) path") auto
  have "cv = tv" if "sortedContents lc contents = contents" "listingsSorted lc remote tv"
  proof -
    from tv that(1) have "walk (sortedContents lc) fuel remote contents path = Some tv" by simp
    then have "walk (\<lambda>l. l) fuel remote contents path = Some tv"
      using refl that(2) by (rule walk_already_sorted)
    with cv show ?thesis by simp
  qed
  with g c cv tv t t' show ?thesis by (auto simp: generateTree_def)
qed

lemma tree_walk_scenario:
  "walk (sortedContents localeCompareRoot) (Suc 0) scenarioRemote scenarioRoot [] =
     Some [Directory [] (dirEntry ''src''), Leaf (js ''src'') (fileEntry ''index.js'' 45),
           Leaf [] (fileEntry ''README.md'' 120)]"
  by code_simp

lemma scenario_depth_1: "depthWithin (Suc 0) scenarioRemote scenarioRoot []"
  by code_simp

lemma scenario_walks:
  "walk (\<lambda>l. l) (Suc 0) scenarioRemote scenarioRoot [] =
     Some [Directory [] (dirEntry ''src''), Leaf (js ''src'') (fileEntry ''index.js'' 45),
           Leaf [] (fileEntry ''README.md'' 120)]"
  "sortedContents localeCompareRoot scenarioRoot = scenarioRoot"
  "listingsSorted localeCompareRoot scenarioRemote
     [Directory [] (dirEntry ''src''), Leaf (js ''src'') (fileEntry ''index.js'' 45),
      Leaf [] (fileEntry ''README.md'' 120)]"
  by code_simp+

lemma scenario_rendered:
  "concat (map (contentPiece (\<lambda>c. c) scenarioRemote)
     [Directory [] (dirEntry ''src''), Leaf (js ''src'') (fileEntry ''index.js'' 45),
      Leaf [] (fileEntry ''README.md'' 120)])
   = eq50 @ [NL] @ js ''File: src/index.js'' @ [NL] @ eq50 @ [NL] @ js ''console.log(1)'' @ [NL, NL]
     @ eq50 @ [NL] @ js ''File: README.md'' @ [NL] @ eq50 @ [NL] @ js ''# Title'' @ [NL, NL]"
  "concat (map treeLine
     [Directory [] (dirEntry ''src''), Leaf (js ''src'') (fileEntry ''index.js'' 45),
      Leaf [] (fileEntry ''README.md'' 120)])
   = folderIcon @ js '' src/'' @ [NL] @ js ''  '' @ pageIcon @ js '' index.js'' @ [NL]
     @ pageIcon @ js '' README.md'' @ [NL]"
  by code_simp+

theorem C3_traversal_orders_witness:
  "map_option fst (generateContent (Suc 0) (\<lambda>c. c) scenarioRemote scenarioRoot [])
     = Some (eq50 @ [NL] @ js ''File: src/index.js'' @ [NL] @ eq50 @ [NL] @ js ''console.log(1)''
             @ [NL, NL]
             @ eq50 @ [NL] @ js ''File: README.md'' @ [NL] @ eq50 @ [NL] @ js ''# Title''
             @ [NL, NL]) \<and>
   generateTree (Suc 0) localeCompareRoot scenarioRemote scenarioRoot []
     = Some (folderIcon @ js '' src/'' @ [NL] @ js ''  '' @ pageIcon @ js '' index.js'' @ [NL]
             @ pageIcon @ js '' README.md'' @ [NL]) \<and>
   walk (sortedContents localeCompareRoot) (Suc 0) scenarioRemote
       (sortedContents localeCompareRoot scenarioRoot) []
     = walk (\<lambda>l. l) (Suc 0) scenarioRemote scenarioRoot []"
proof -
  let ?V = "[Directory [] (dirEntry ''src''), Leaf (js ''src'') (fileEntry ''index.js'' 45),
             Leaf [] (fileEntry ''README.md'' 120)]"
  from C3_traversal_orders [OF scenario_depth_1, of localeCompareRoot "\<lambda>c. c"]
  obtain cv tv fetched
    where cv: "walk (\<lambda>l. l) (Suc 0) scenarioRemote scenarioRoot [] = Some cv"
      and tv: "walk (sortedContents localeCompareRoot) (Suc 0) scenarioRemote
                 (sortedContents localeCompareRoot scenarioRoot) [] = Some tv"
      and c: "generateContent (Suc 0) (\<lambda>c. c) scenarioRemote scenarioRoot []
                = Some (concat (map (contentPiece (\<lambda>c. c) scenarioRemote) cv), fetched)"
      and t: "generateTree (Suc 0) localeCompareRoot scenarioRemote scenarioRoot []
                = Some (concat (map treeLine tv))"
      and same: "sortedContents localeCompareRoot scenarioRoot = scenarioRoot \<and>
                 listingsSorted localeCompareRoot scenarioRemote tv \<longrightarrow> cv = tv"
    by blast
  from tv have "tv = ?V"
    unfolding scenario_walks(2) by (simp only: tree_walk_scenario option.inject)
  with same scenario_walks(2,3) have "cv = ?V" by simp
  have "map_option fst (generateContent (Suc 0) (\<lambda>c. c) scenarioRemote scenarioRoot [])
      = Some (concat (map (contentPiece (\<lambda>c. c) scenarioRemote) ?V))"
    unfolding c \<open>cv = ?V\<close> by (simp only: option.map fst_conv)
  moreover have "generateTree (Suc 0) localeCompareRoot scenarioRemote scenarioRoot []
      = Some (concat (map treeLine ?V))"
    unfolding t \<open>tv = ?V\<close> ..
  moreover have "walk (sortedContents localeCompareRoot) (Suc 0) scenarioRemote
       (sortedContents localeCompareRoot scenarioRoot) []
     = walk (\<lambda>l. l) (Suc 0) scenarioRemote scenarioRoot []"
    unfolding cv tv \<open>cv = ?V\<close> \<open>tv = ?V\<close> ..
  ultimately show ?thesis by (simp only: scenario_rendered simp_thms)
qed

text \<open>
  The claim as written gives the content the order of the tree. When a listing
  has a file before a directory, the content keeps the listing's order and the
  tree does not: the section of \<open>b.txt\<close> comes first in the blob, its line comes
  last in the tree.
\<close>

theorem C3_unsorted_listing_counterexample:
  "generateTree (Suc 0) localeCompareRoot unsortedRemote unsortedRoot []
     = Some (folderIcon @ js '' '' @ js ''A'' @ js ''/'' @ [NL]
             @ js ''  '' @ pageIcon @ js '' '' @ js ''c.txt'' @ [NL]
             @ pageIcon @ js '' '' @ js ''b.txt'' @ [NL]) \<and>
   map_option fst (generateContent (Suc 0) (\<lambda>c. c) unsortedRemote unsortedRoot [])
     = Some (blobOf [(js ''b.txt'', js ''bee''), (js ''A/c.txt'', js ''see'')]) \<and>
   map_option (\<lambda>vs. map fst (fileVisits vs)) (walk (\<lambda>l. l) (Suc 0) unsortedRemote unsortedRoot [])
     = Some [js ''b.txt'', js ''A/c.txt''] \<and>
   map_option (\<lambda>vs. map fst (fileVisits vs))
       (walk (sortedContents localeCompareRoot) (Suc 0) unsortedRemote
          (sortedContents localeCompareRoot unsortedRoot) [])
     = Some [js ''A/c.txt'', js ''b.txt'']"
proof -
  have "generateTree (Suc 0) localeCompareRoot unsortedRemote unsortedRoot []
     = Some (folderIcon @ js '' '' @ js ''A'' @ js ''/'' @ [NL]
             @ js ''  '' @ pageIcon @ js '' '' @ js ''c.txt'' @ [NL]
             @ pageIcon @ js '' '' @ js ''b.txt'' @ [NL])"
    by code_simp
  moreover have "map_option fst (generateContent (Suc 0) (\<lambda>c. c) unsortedRemote unsortedRoot [])
     = Some (blobOf [(js ''b.txt'', js ''bee''), (js ''A/c.txt'', js ''see'')])"
    by code_simp
  moreover have "map_option (\<lambda>vs. map fst (fileVisits vs))
       (walk (\<lambda>l. l) (Suc 0) unsortedRemote unsortedRoot [])
     = Some [js ''b.txt'', js ''A/c.txt'']"
    by code_simp
  moreover have "map_option (\<lambda>vs. map fst (fileVisits vs))
       (walk (sortedContents localeCompareRoot) (Suc 0) unsortedRemote
          (sortedContents localeCompareRoot unsortedRoot) [])
     = Some [js ''A/c.txt'', js ''b.txt'']"
    by code_simp
  ultimately show ?thesis by blast
qed

section \<open>Round trip\<close>

























end
